theory Spec2Isabelle
  imports Complex_Main
begin

section \<open>codex-lens: chain search engine, cascade strategies and the API reranker\<close>

text \<open>
  A shallow embedding of the parts of \<^verbatim>\<open>codexlens/search/chain_search.py\<close>,
  \<^verbatim>\<open>codexlens/search/hybrid_search.py\<close> and
  \<^verbatim>\<open>codexlens/semantic/reranker/api_reranker.py\<close> that decide the properties below.
  Python \<^verbatim>\<open>int\<close> is \<^typ>\<open>int\<close>, \<^verbatim>\<open>float\<close> is \<^typ>\<open>real\<close> (rounding is not
  modelled), \<^verbatim>\<open>str\<close> and \<^verbatim>\<open>Path\<close> are \<^typ>\<open>string\<close>, \<^verbatim>\<open>None\<close> is \<^const>\<open>None\<close>.
  Results of collaborators that are not part of the engine (embedders, index stores,
  the HTTP client) are fields of an environment record.
\<close>

subsection \<open>Configuration\<close>

text \<open>
  The engine reads its \<^verbatim>\<open>Config\<close> through \<^verbatim>\<open>getattr(cfg, name, None)\<close> and
  \<^verbatim>\<open>hasattr(cfg, name)\<close>; a field is \<^const>\<open>None\<close> when the object has no such attribute.
  \<^verbatim>\<open>self._config\<close> itself may be \<^verbatim>\<open>None\<close>.
\<close>

record config =
  cascade_strategy :: "string option"
  cascade_coarse_k :: "int option"
  cascade_fine_k :: "int option"

subsection \<open>\<^verbatim>\<open>ChainSearchEngine.cascade_search\<close>: strategy selection\<close>

definition valid_strategies :: "string list" where
  "valid_strategies = [''binary'', ''hybrid'', ''binary_rerank'', ''dense_rerank'']"

text \<open>
  \<^verbatim>\<open>effective_strategy = strategy\<close>, then the config is consulted only when the
  argument is \<^verbatim>\<open>None\<close>, and only a valid config value is taken.
\<close>

definition strategy_after_config :: "config option \<Rightarrow> string option \<Rightarrow> string option" where
  "strategy_after_config cfg strategy =
     (case strategy of
        Some s \<Rightarrow> Some s
      | None \<Rightarrow>
          (case cfg of
             None \<Rightarrow> None
           | Some c \<Rightarrow>
               (case cascade_strategy c of
                  None \<Rightarrow> None
                | Some cs \<Rightarrow> if cs \<in> set valid_strategies then Some cs else None)))"

text \<open>\<^verbatim>\<open>if effective_strategy not in valid_strategies: effective_strategy = "binary"\<close>\<close>

definition effective_strategy :: "config option \<Rightarrow> string option \<Rightarrow> string" where
  "effective_strategy cfg strategy =
     (case strategy_after_config cfg strategy of
        None \<Rightarrow> ''binary''
      | Some s \<Rightarrow> if s \<in> set valid_strategies then s else ''binary'')"

datatype cascade_method =
  Binary_cascade | Binary_rerank_cascade | Dense_rerank_cascade | Hybrid_cascade

text \<open>
  The method \<^verbatim>\<open>cascade_search\<close> returns the result of, with the \<^verbatim>\<open>k\<close> and
  \<^verbatim>\<open>coarse_k\<close> it passes on.
\<close>

definition cascade_search ::
  "config option \<Rightarrow> string option \<Rightarrow> int \<Rightarrow> int \<Rightarrow> cascade_method \<times> int \<times> int" where
  "cascade_search cfg strategy k coarse_k =
     (let eff = effective_strategy cfg strategy in
      if eff = ''binary'' then (Binary_cascade, k, coarse_k)
      else if eff = ''binary_rerank'' then (Binary_rerank_cascade, k, coarse_k)
      else if eff = ''dense_rerank'' then (Dense_rerank_cascade, k, coarse_k)
      else (Hybrid_cascade, k, coarse_k))"

subsection \<open>Config defaults for \<^verbatim>\<open>k\<close> and \<^verbatim>\<open>coarse_k\<close>\<close>









subsection \<open>Search results\<close>

text \<open>
  \<^verbatim>\<open>codexlens.entities.SearchResult\<close>, with the fields the chain engine sets when it
  builds one: \<^verbatim>\<open>SearchResult(path=..., score=..., excerpt=..., content=...)\<close>.
\<close>

record search_result =
  path :: string
  score :: real
  excerpt :: string
  content :: "string option"

subsection \<open>Cosine distance to score\<close>

text \<open>
  \<^verbatim>\<open>dense_rerank_cascade_search\<close> (chain\_search.py, line 1453):
  \<^verbatim>\<open>score = max(0.0, 1.0 - distance)\<close>.
\<close>

definition dense_rerank_score :: "real \<Rightarrow> real" where
  "dense_rerank_score distance = max 0 (1 - distance)"

text \<open>
  \<^verbatim>\<open>HybridSearchEngine._search_vector_centralized\<close> (hybrid\_search.py, line 688):
  \<^verbatim>\<open>scores = [1.0 - d for d in distances]\<close>.
\<close>

definition centralized_vector_scores :: "real list \<Rightarrow> real list" where
  "centralized_vector_scores distances = map (\<lambda>d. 1 - d) distances"

text \<open>
  \<^verbatim>\<open>_fetch_chunks_by_ids_centralized\<close>:
  \<^verbatim>\<open>score_map = {cid: score for cid, score in zip(chunk_ids, scores)}\<close> (a later pair
  replaces an earlier one with the same id), and for every row fetched
  \<^verbatim>\<open>score = score_map.get(chunk_id, 0.0)\<close> is the score handed to \<^verbatim>\<open>SearchResult\<close>.
\<close>

definition score_map_of :: "int list \<Rightarrow> real list \<Rightarrow> (int \<rightharpoonup> real)" where
  "score_map_of chunk_ids scores = map_of (rev (zip chunk_ids scores))"

definition row_score :: "(int \<rightharpoonup> real) \<Rightarrow> int \<Rightarrow> real" where
  "row_score score_map chunk_id = (case score_map chunk_id of None \<Rightarrow> 0 | Some s \<Rightarrow> s)"

subsection \<open>Python slices\<close>

text \<open>
  The bound \<open>i\<close> of a slice of a list of length \<open>n\<close>: a negative bound counts from the
  end, and both are clipped to \<open>0..n\<close>.
\<close>

definition py_index :: "int \<Rightarrow> nat \<Rightarrow> nat" where
  "py_index i n = (if i < 0 then nat (max (i + int n) 0) else min (nat i) n)"

text \<open>\<^verbatim>\<open>xs[a:b]\<close>\<close>

definition py_slice :: "int \<Rightarrow> int \<Rightarrow> 'a list \<Rightarrow> 'a list" where
  "py_slice a b xs =
     (let lo = py_index a (length xs); hi = py_index b (length xs)
      in take (hi - lo) (drop lo xs))"


subsection \<open>\<^verbatim>\<open>ChainSearchEngine._merge_and_rank\<close>\<close>

text \<open>
  \<^verbatim>\<open>
  path_to_result = {}
  for result in results:
      path = result.path
      if path not in path_to_result or result.score > path_to_result[path].score:
          path_to_result[path] = result
  \<close>
  A Python dict keeps its keys in the order of their first insertion, and assigning to a
  key that is present keeps its place. The dict is the list of its values, each
  keyed by its own path.
\<close>

fun dedup_insert :: "search_result \<Rightarrow> search_result list \<Rightarrow> search_result list" where
  "dedup_insert r [] = [r]"
| "dedup_insert r (x # xs) =
     (if path x = path r then (if score r > score x then r # xs else x # xs)
      else x # dedup_insert r xs)"

definition dedup_by_path :: "search_result list \<Rightarrow> search_result list" where
  "dedup_by_path results = foldl (\<lambda>acc r. dedup_insert r acc) [] results"

text \<open>
  \<^verbatim>\<open>unique_results = list(path_to_result.values())\<close>, then
  \<^verbatim>\<open>unique_results.sort(key=lambda r: r.score, reverse=True)\<close>: a stable sort, highest
  score first.
\<close>

definition ranked_unique :: "search_result list \<Rightarrow> search_result list" where
  "ranked_unique results = sort_key (\<lambda>r. - score r) (dedup_by_path results)"

text \<open>\<^verbatim>\<open>return unique_results[offset:offset + limit]\<close>\<close>

definition merge_and_rank :: "search_result list \<Rightarrow> int \<Rightarrow> int \<Rightarrow> search_result list" where
  "merge_and_rank results limit offset =
     py_slice offset (offset + limit) (ranked_unique results)"

subsection \<open>\<^verbatim>\<open>APIReranker\<close>: requests, retries and backoff\<close>

text \<open>
  A Python \<^verbatim>\<open>str\<close> whose length matters is the list of its code points.
  \<^verbatim>\<open>str.strip()\<close> removes the characters for which \<^verbatim>\<open>str.isspace\<close> holds from
  both ends.
\<close>

type_synonym pystr = "nat list"

definition py_isspace :: "nat \<Rightarrow> bool" where
  "py_isspace c \<longleftrightarrow>
     (9 \<le> c \<and> c \<le> 13) \<or> (28 \<le> c \<and> c \<le> 32) \<or> c = 133 \<or> c = 160 \<or> c = 5760
     \<or> (8192 \<le> c \<and> c \<le> 8202) \<or> c = 8232 \<or> c = 8233 \<or> c = 8239 \<or> c = 8287
     \<or> c = 12288"

definition py_strip :: "pystr \<Rightarrow> pystr" where
  "py_strip s = rev (dropWhile py_isspace (rev (dropWhile py_isspace s)))"

text \<open>
  What \<^verbatim>\<open>self._client.post(...)\<close> gives at one attempt: an exception, or a response
  with its status code, its \<^verbatim>\<open>text\<close> (\<^const>\<open>None\<close> when it is empty, \<^verbatim>\<open>None\<close> or
  reading it raises: the code reads \<^verbatim>\<open>""\<close> in all three cases), the value
  \<^verbatim>\<open>_parse_retry_after_seconds\<close> reads from its headers (\<^const>\<open>None\<close> when the
  \<^verbatim>\<open>Retry-After\<close> header is missing, blank or not a number) and what
  \<^verbatim>\<open>response.json()\<close> gives.
\<close>

datatype json_body = Json_invalid | Json_not_object | Json_object pystr

record response =
  status_code :: int
  resp_text :: "pystr option"
  retry_after :: "real option"
  json :: json_body

datatype http_outcome = Post_raises | Response response

text \<open>
  The fields of the reranker that the request loop reads, as \<^verbatim>\<open>__init__\<close> sets them:
  \<^verbatim>\<open>
  self.max_retries = int(max_retries) if max_retries and int(max_retries) >= 0 else 3
  self.backoff_base_s = float(backoff_base_s) if backoff_base_s and float(backoff_base_s) > 0 else 0.5
  self.backoff_max_s = float(backoff_max_s) if backoff_max_s and float(backoff_max_s) > 0 else 8.0
  \<close>
  with the parameter defaults \<^verbatim>\<open>max_retries=3, backoff_base_s=0.5, backoff_max_s=8.0\<close>.
\<close>

record reranker =
  max_retries :: nat
  backoff_base_s :: real
  backoff_max_s :: real

definition init_max_retries :: "int \<Rightarrow> nat" where
  "init_max_retries m = (if m \<noteq> 0 \<and> m \<ge> 0 then nat m else 3)"

definition init_backoff_base_s :: "real \<Rightarrow> real" where
  "init_backoff_base_s b = (if b \<noteq> 0 \<and> b > 0 then b else 1/2)"

definition init_backoff_max_s :: "real \<Rightarrow> real" where
  "init_backoff_max_s m = (if m \<noteq> 0 \<and> m > 0 then m else 8)"

definition init_reranker :: "int \<Rightarrow> real \<Rightarrow> real \<Rightarrow> reranker" where
  "init_reranker m b c =
     \<lparr>max_retries = init_max_retries m, backoff_base_s = init_backoff_base_s b,
      backoff_max_s = init_backoff_max_s c\<rparr>"

definition default_reranker :: reranker where
  "default_reranker = init_reranker 3 (1/2) 8"

text \<open>
  \<^verbatim>\<open>_sleep_backoff(attempt, retry_after_s)\<close>: the argument of \<^verbatim>\<open>time.sleep\<close>.
  \<open>jitter\<close> is the value \<^verbatim>\<open>random.uniform(0, min(0.5, self.backoff_base_s))\<close> draws.
  \<^verbatim>\<open>
  if retry_after_s is not None and retry_after_s > 0:
      time.sleep(min(float(retry_after_s), self.backoff_max_s)); return
  exp = self.backoff_base_s * (2**attempt)
  time.sleep(min(self.backoff_max_s, exp + jitter))
  \<close>
\<close>

definition sleep_backoff :: "reranker \<Rightarrow> real \<Rightarrow> nat \<Rightarrow> real option \<Rightarrow> real" where
  "sleep_backoff rr jitter attempt retry_after_s =
     (let exp_sleep = min (backoff_max_s rr) (backoff_base_s rr * 2 ^ attempt + jitter) in
      case retry_after_s of
        None \<Rightarrow> exp_sleep
      | Some r \<Rightarrow> if r > 0 then min r (backoff_max_s rr) else exp_sleep)"

definition should_retry_status :: "int \<Rightarrow> bool" where
  "should_retry_status status \<longleftrightarrow> status = 429 \<or> (500 \<le> status \<and> status \<le> 599)"

text \<open>
  \<^verbatim>\<open>body_preview = (response.text or "").strip()\<close>, cut to 300 characters followed by
  the character U+2026 when it is longer.
\<close>

definition ellipsis :: nat where "ellipsis = 8230"

definition body_preview :: "response \<Rightarrow> pystr" where
  "body_preview resp =
     (let b = py_strip (case resp_text resp of None \<Rightarrow> [] | Some t \<Rightarrow> t) in
      if length b > 300 then take 300 b @ [ellipsis] else b)"

text \<open>
  The \<^verbatim>\<open>RuntimeError\<close>s of \<^verbatim>\<open>_request_json\<close>: the request raised at the last attempt
  (with the number of attempts made), unauthorized (HTTP 401 or 403), failed with a
  status and the body preview (\<^verbatim>\<open>body_preview or '<empty>'\<close>), the response is not
  valid JSON, the JSON is not an object, and the error after a loop that made no attempt.
\<close>

datatype rerank_error =
  Request_failed nat
  | Unauthorized int
  | Http_failed int pystr
  | Invalid_json
  | Not_a_json_object
  | No_attempt

text \<open>
  The world the loop runs in: the outcome of the post at each attempt and the jitter drawn
  at each attempt.
\<close>

record http_env =
  post :: "nat \<Rightarrow> http_outcome"
  jitter :: "nat \<Rightarrow> real"

definition empty_marker :: pystr where
  "empty_marker = map of_char ''<empty>''"

text \<open>
  \<^verbatim>\<open>_request_json\<close>: the body of \<^verbatim>\<open>for attempt in range(self.max_retries + 1)\<close> from
  \<open>attempt\<close> on. The result is the returned JSON object or the error raised, and the
  sleeps made so far, in order.
\<close>

function request_loop ::
  "reranker \<Rightarrow> http_env \<Rightarrow> nat \<Rightarrow> real list \<Rightarrow> (rerank_error + pystr) \<times> real list" where
  "request_loop rr env attempt sleeps =
     (if attempt > max_retries rr then (Inl No_attempt, sleeps)
      else
        (case post env attempt of
           Post_raises \<Rightarrow>
             if attempt < max_retries rr
             then request_loop rr env (Suc attempt)
                    (sleeps @ [sleep_backoff rr (jitter env attempt) attempt None])
             else (Inl (Request_failed (max_retries rr + 1)), sleeps)
         | Response resp \<Rightarrow>
             if status_code resp \<ge> 400 then
               (if should_retry_status (status_code resp) \<and> attempt < max_retries rr
                then request_loop rr env (Suc attempt)
                       (sleeps @ [sleep_backoff rr (jitter env attempt) attempt
                                    (retry_after resp)])
                else if status_code resp = 401 \<or> status_code resp = 403
                then (Inl (Unauthorized (status_code resp)), sleeps)
                else (Inl (Http_failed (status_code resp)
                        (if body_preview resp = [] then empty_marker else body_preview resp)),
                      sleeps))
             else
               (case json resp of
                  Json_invalid \<Rightarrow> (Inl Invalid_json, sleeps)
                | Json_not_object \<Rightarrow> (Inl Not_a_json_object, sleeps)
                | Json_object data \<Rightarrow> (Inr data, sleeps))))"
  by pat_completeness auto
termination
  by (relation "measure (\<lambda>(rr, env, attempt, sleeps). max_retries rr + 1 - attempt)") auto

definition request_json :: "reranker \<Rightarrow> http_env \<Rightarrow> (rerank_error + pystr) \<times> real list" where
  "request_json rr env = request_loop rr env 0 []"

subsection \<open>\<^verbatim>\<open>ChainSearchEngine._collect_index_paths\<close>\<close>

text \<open>
  What the collector sees of the file system: \<^verbatim>\<open>Path.resolve()\<close>, and for every
  \<^verbatim>\<open>_index.db\<close> that exists, under its resolved path, the \<^verbatim>\<open>index_path\<close>s of the rows
  \<^verbatim>\<open>DirIndexStore.get_subdirs()\<close> returns (\<^const>\<open>None\<close> when reading them raises, which the
  collector logs and survives). A path with no entry is an index that does not exist.
\<close>

record index_tree =
  resolve :: "string \<Rightarrow> string"
  indexes :: "(string \<times> string list option) list"

text \<open>
  \<^verbatim>\<open>_collect_recursive\<close>, for a list of paths at one depth: the first equation is the end
  of \<^verbatim>\<open>for subdir in subdirs\<close>, the second is one call
  \<^verbatim>\<open>_collect_recursive(index_path, current_depth)\<close> followed by the remaining
  iterations. The state is the pair of the closure's variables \<^verbatim>\<open>collected\<close> and
  \<^verbatim>\<open>visited\<close>.
  \<^verbatim>\<open>
  normalized = index_path.resolve()
  if normalized in visited: return
  visited.add(normalized)
  if normalized.exists(): collected.append(normalized)
  else: return
  if depth >= 0 and current_depth >= depth: return
  try:
      with DirIndexStore(normalized) as store:
          for subdir in store.get_subdirs():
              _collect_recursive(subdir.index_path, current_depth + 1)
  except Exception as exc: self.logger.warning(...)
  \<close>
\<close>

function collect_recursive ::
  "index_tree \<Rightarrow> int \<Rightarrow> string list \<Rightarrow> nat \<Rightarrow> string list \<times> string set
     \<Rightarrow> string list \<times> string set" where
  "collect_recursive t depth [] current_depth st = st"
| "collect_recursive t depth (index_path # rest) current_depth (collected, visited) =
     (let normalized = resolve t index_path in
      if normalized \<in> visited
      then collect_recursive t depth rest current_depth (collected, visited)
      else
        (case map_of (indexes t) normalized of
           None \<Rightarrow>
             collect_recursive t depth rest current_depth (collected, insert normalized visited)
         | Some subs \<Rightarrow>
             if depth \<ge> 0 \<and> int current_depth \<ge> depth
             then collect_recursive t depth rest current_depth
                    (collected @ [normalized], insert normalized visited)
             else
               (case subs of
                  None \<Rightarrow>
                    collect_recursive t depth rest current_depth
                      (collected @ [normalized], insert normalized visited)
                | Some subdirs \<Rightarrow>
                    collect_recursive t depth rest current_depth
                      (collect_recursive t depth subdirs (current_depth + 1)
                         (collected @ [normalized], insert normalized visited)))))"
  by pat_completeness auto

text \<open>
  The recursion is nested: the loop goes on in the state the call returns. It ends because
  a call that recurses has added an existing index to \<^verbatim>\<open>visited\<close>, and \<^verbatim>\<open>visited\<close>
  never shrinks.
\<close>

lemma collect_recursive_visited_mono:
  "collect_recursive_dom (t, depth, ps, cd, st) \<Longrightarrow>
     snd st \<subseteq> snd (collect_recursive t depth ps cd st)"
proof (induction t depth ps cd st rule: collect_recursive.pinduct)
  case (1 t depth current_depth st)
  then show ?case by (simp add: collect_recursive.psimps)
next
  case (2 t depth index_path rest current_depth collected visited)
  note dom = 2(1)
  show ?case
  proof (cases "resolve t index_path \<in> visited")
    case True
    with 2(2) dom show ?thesis by (simp add: collect_recursive.psimps Let_def)
  next
    case nv: False
    show ?thesis
    proof (cases "map_of (indexes t) (resolve t index_path)")
      case None
      with 2(3) nv dom show ?thesis by (auto simp: collect_recursive.psimps Let_def)
    next
      case (Some subs)
      show ?thesis
      proof (cases "depth \<ge> 0 \<and> int current_depth \<ge> depth")
        case True
        with 2(4) [OF refl nv Some] nv dom Some show ?thesis
          by (auto simp: collect_recursive.psimps Let_def)
      next
        case nd: False
        show ?thesis
        proof (cases subs)
          case None
          with 2(5) [OF refl nv Some nd] nv dom Some nd show ?thesis
            by (auto simp: collect_recursive.psimps Let_def)
        next
          case (Some subdirs)
          note a = 2(6) [OF refl nv \<open>map_of (indexes t) (resolve t index_path) = Some subs\<close> nd Some]
          note b = 2(7) [OF refl nv \<open>map_of (indexes t) (resolve t index_path) = Some subs\<close> nd Some]
          from a b have "visited \<subseteq> snd (collect_recursive t depth rest current_depth
                      (collect_recursive t depth subdirs (current_depth + 1)
                         (collected @ [resolve t index_path], insert (resolve t index_path) visited)))"
            by auto
          with nv dom nd Some \<open>map_of (indexes t) (resolve t index_path) = Some subs\<close>
          show ?thesis by (auto simp: collect_recursive.psimps Let_def)
        qed
      qed
    qed
  qed
qed

termination collect_recursive
proof (relation "inv_image (finite_psubset <*lex*> less_than)
         (\<lambda>(t, depth, ps, cd, st). (set (map fst (indexes t)) - snd st, length ps))",
       goal_cases)
  case 1
  then show ?case by (auto intro: wf_finite_psubset)
next
  case (2 t depth index_path rest current_depth collected visited x)
  then show ?case by simp
next
  case (3 t depth index_path rest current_depth collected visited x)
  then have "resolve t index_path \<notin> fst ` set (indexes t)"
    by (simp add: map_of_eq_None_iff)
  then have "set (map fst (indexes t)) - insert (resolve t index_path) visited
      = set (map fst (indexes t)) - visited" by auto
  with 3 show ?case by simp
next
  case (4 t depth index_path rest current_depth collected visited x x2)
  then have "resolve t index_path \<in> fst ` set (indexes t)"
    by (metis map_of_eq_None_iff option.distinct(1))
  with 4 show ?case by (auto simp: finite_psubset_def)
next
  case (5 t depth index_path rest current_depth collected visited x x2)
  then have "resolve t index_path \<in> fst ` set (indexes t)"
    by (metis map_of_eq_None_iff option.distinct(1))
  with 5 show ?case by (auto simp: finite_psubset_def)
next
  case (6 t depth index_path rest current_depth collected visited x x2 x2a)
  then have "resolve t index_path \<in> fst ` set (indexes t)"
    by (metis map_of_eq_None_iff option.distinct(1))
  with 6 show ?case by (auto simp: finite_psubset_def)
next
  case (7 t depth index_path rest current_depth collected visited x x2 x2a)
  then have k: "resolve t index_path \<in> fst ` set (indexes t)"
    by (metis map_of_eq_None_iff option.distinct(1))
  from 7 have "insert (resolve t index_path) visited \<subseteq>
     snd (collect_recursive t depth x2a (current_depth + 1)
                         (collected @ [resolve t index_path], insert (resolve t index_path) visited))"
    using collect_recursive_visited_mono by fastforce
  with k 7 show ?case by (auto simp: finite_psubset_def)
qed

text \<open>\<^verbatim>\<open>_collect_recursive(start_index, 0); return collected\<close>\<close>

definition collect_index_paths :: "index_tree \<Rightarrow> string \<Rightarrow> int \<Rightarrow> string list" where
  "collect_index_paths t start_index depth =
     fst (collect_recursive t depth [start_index] 0 ([], {}))"

text \<open>\<^verbatim>\<open>normalized.exists()\<close>\<close>

definition index_exists :: "index_tree \<Rightarrow> string \<Rightarrow> bool" where
  "index_exists t p \<longleftrightarrow> map_of (indexes t) p \<noteq> None"

text \<open>
  \<open>reach t start n p\<close>: the resolved path \<open>p\<close> is \<open>n\<close> subdirectory links away from the
  start index, along indexes that exist and whose links can be read.
\<close>

inductive reach :: "index_tree \<Rightarrow> string \<Rightarrow> nat \<Rightarrow> string \<Rightarrow> bool"
  for t :: index_tree and start_index :: string where
  reach_start: "reach t start_index 0 (resolve t start_index)"
| reach_link: "reach t start_index n p \<Longrightarrow> map_of (indexes t) p = Some (Some subdirs)
     \<Longrightarrow> s \<in> set subdirs \<Longrightarrow> reach t start_index (Suc n) (resolve t s)"

subsection \<open>\<^verbatim>\<open>ChainSearchEngine.binary_cascade_search\<close>\<close>








text \<open>
  \<^verbatim>\<open>SearchStats\<close> and \<^verbatim>\<open>ChainSearchResult\<close>; \<^verbatim>\<open>time_ms\<close> (wall-clock time), the
  query and the empty symbol list are left out.
\<close>

record search_stats =
  dirs_searched :: nat
  files_matched :: nat
  errors :: "string list"

record chain_search_result =
  results :: "search_result list"
  stats :: search_stats


























subsection \<open>Fusion kernel: weight normalization and reciprocal-rank fusion\<close>

text \<open>Modelled from the spec: a weight or fused score is a Python float; \<^verbatim>\<open>codexlens/search/ranking.py\<close> is not among the sources, so the floats the spec's fusion kernel
  handles are modelled as a real number or one of the three special values the spec names
  (NaN, plus and minus infinity). Finite arithmetic is exact (no rounding, no overflow).\<close>
datatype pyfloat = Fin real | PInf | NInf | NaN

text \<open>Modelled from the spec: float addition as the total of the weights needs it (\<^verbatim>\<open>codexlens/search/ranking.py\<close> is not among the sources): NaN absorbs,
  opposite infinities give NaN, an infinity absorbs a finite value.\<close>
fun fadd :: "pyfloat \<Rightarrow> pyfloat \<Rightarrow> pyfloat" where
  "fadd (Fin a) (Fin b) = Fin (a + b)"
| "fadd NaN _ = NaN"
| "fadd _ NaN = NaN"
| "fadd PInf NInf = NaN"
| "fadd NInf PInf = NaN"
| "fadd PInf _ = PInf"
| "fadd _ PInf = PInf"
| "fadd NInf _ = NInf"
| "fadd _ NInf = NInf"

text \<open>Modelled from the spec: float division by a finite positive total or by \<open>k + r\<close> (\<^verbatim>\<open>codexlens/search/ranking.py\<close> is not among the sources).\<close>
fun fdiv :: "pyfloat \<Rightarrow> real \<Rightarrow> pyfloat" where
  "fdiv (Fin a) d = Fin (a / d)"
| "fdiv PInf d = PInf"
| "fdiv NInf d = NInf"
| "fdiv NaN d = NaN"

text \<open>Modelled from the spec: \<^verbatim>\<open>math.isfinite\<close> on the total (``if total is not finite'').\<close>
fun is_finite :: "pyfloat \<Rightarrow> bool" where
  "is_finite (Fin _) = True"
| "is_finite _ = False"

text \<open>Modelled from the spec: Python's \<^verbatim>\<open>>\<close> on floats, false whenever a NaN is compared; used by the descending sort.\<close>
fun fgt :: "pyfloat \<Rightarrow> pyfloat \<Rightarrow> bool" where
  "fgt (Fin a) (Fin b) = (a > b)"
| "fgt NaN _ = False"
| "fgt _ NaN = False"
| "fgt PInf PInf = False"
| "fgt PInf _ = True"
| "fgt _ PInf = False"
| "fgt NInf _ = False"
| "fgt _ NInf = True"

text \<open>Modelled from the spec: ``compute the total'' of the weights of a source-to-weight mapping, in
  insertion order (\<^verbatim>\<open>codexlens/search/ranking.py\<close> is not among the sources).\<close>
definition weights_total :: "(string \<times> pyfloat) list \<Rightarrow> pyfloat" where
  "weights_total weights = foldl fadd (Fin 0) (map snd weights)"

text \<open>Modelled from the spec: ``if total is not finite or not strictly positive, return the input
  mapping unchanged; otherwise divide each weight by the total'' (spec 4.2, weight
  normalization; the function \<^verbatim>\<open>normalize_weights\<close> of \<^verbatim>\<open>codexlens/search/ranking.py\<close>, which is not
  among the sources). The mapping is an association list in insertion order.\<close>
definition normalize_weights :: "(string \<times> pyfloat) list \<Rightarrow> (string \<times> pyfloat) list" where
  "normalize_weights weights =
     (case weights_total weights of
        Fin t \<Rightarrow> if t > 0 then map (\<lambda>(s, w). (s, fdiv w t)) weights else weights
      | _ \<Rightarrow> weights)"

text \<open>Modelled from the spec: ``Within a single source, if a path appears twice, the first occurrence
  wins (deduplicate before accumulating)'' (\<^verbatim>\<open>codexlens/search/ranking.py\<close> is not among the sources).\<close>
fun first_by_path :: "search_result list \<Rightarrow> string list \<Rightarrow> search_result list" where
  "first_by_path [] seen = []"
| "first_by_path (r # rs) seen =
     (if path r \<in> set seen then first_by_path rs seen
      else r # first_by_path rs (path r # seen))"

text \<open>Modelled from the spec: the accumulator keyed by path, a dict in insertion order; a new path starts
  from \<open>0.0\<close> (\<^verbatim>\<open>codexlens/search/ranking.py\<close> is not among the sources).\<close>
fun acc_add :: "string \<Rightarrow> pyfloat \<Rightarrow> (string \<times> pyfloat) list \<Rightarrow> (string \<times> pyfloat) list" where
  "acc_add p c [] = [(p, fadd (Fin 0) c)]"
| "acc_add p c ((q, a) # rest) =
     (if q = p then (q, fadd a c) # rest else (q, a) # acc_add p c rest)"

text \<open>Modelled from the spec: ``for each result at 1-based rank r, contribute \<open>w\<^sub>s / (k + r)\<close> to the
  accumulator keyed by path'' (\<^verbatim>\<open>codexlens/search/ranking.py\<close> is not among the sources).\<close>
fun add_ranked ::
  "pyfloat \<Rightarrow> nat \<Rightarrow> nat \<Rightarrow> search_result list \<Rightarrow> (string \<times> pyfloat) list
     \<Rightarrow> (string \<times> pyfloat) list" where
  "add_ranked w k r [] acc = acc"
| "add_ranked w k r (x # xs) acc =
     add_ranked w k (Suc r) xs (acc_add (path x) (fdiv w (real (k + r))) acc)"

text \<open>Modelled from the spec: one source of the results map; ``A source with weight 0 contributes no
  scores'', and a source the weights do not mention is skipped (\<^verbatim>\<open>codexlens/search/ranking.py\<close> is not among the sources).\<close>
definition add_source ::
  "(string \<times> pyfloat) list \<Rightarrow> nat \<Rightarrow> (string \<times> pyfloat) list
     \<Rightarrow> string \<times> search_result list \<Rightarrow> (string \<times> pyfloat) list" where
  "add_source weights k acc src =
     (case map_of weights (fst src) of
        None \<Rightarrow> acc
      | Some w \<Rightarrow>
          if w = Fin 0 then acc
          else add_ranked w k 1 (first_by_path (snd src) []) acc)"

text \<open>Modelled from the spec: the accumulated scores over all sources of the results map
  (\<^verbatim>\<open>codexlens/search/ranking.py\<close> is not among the sources).\<close>
definition rrf_scores ::
  "(string \<times> search_result list) list \<Rightarrow> (string \<times> pyfloat) list \<Rightarrow> nat
     \<Rightarrow> (string \<times> pyfloat) list" where
  "rrf_scores results_map weights k = foldl (add_source weights k) [] results_map"

text \<open>Modelled from the spec: ``sorted by accumulated score descending''; a stable insertion sort stands
  for Python's stable \<^verbatim>\<open>sorted(..., reverse=True)\<close> (\<^verbatim>\<open>codexlens/search/ranking.py\<close> is not among the sources).\<close>
fun insert_desc :: "string \<times> pyfloat \<Rightarrow> (string \<times> pyfloat) list \<Rightarrow> (string \<times> pyfloat) list" where
  "insert_desc x [] = [x]"
| "insert_desc x (y # ys) =
     (if fgt (snd y) (snd x) then y # insert_desc x ys else x # y # ys)"

text \<open>Modelled from the spec: the descending stable sort of the accumulated scores (\<^verbatim>\<open>codexlens/search/ranking.py\<close> is not among the sources).\<close>
definition sort_desc :: "(string \<times> pyfloat) list \<Rightarrow> (string \<times> pyfloat) list" where
  "sort_desc xs = foldr insert_desc xs []"

text \<open>Modelled from the spec: \<^verbatim>\<open>reciprocal_rank_fusion(results_map, weights, k)\<close> of
  \<^verbatim>\<open>codexlens/search/ranking.py\<close>, which is not among the sources; the output is given as the list
  of (path, fused score) pairs, the representative result and its metadata left out.\<close>
definition reciprocal_rank_fusion ::
  "(string \<times> search_result list) list \<Rightarrow> (string \<times> pyfloat) list \<Rightarrow> nat
     \<Rightarrow> (string \<times> pyfloat) list" where
  "reciprocal_rank_fusion results_map weights k = sort_desc (rrf_scores results_map weights k)"

text \<open>Modelled from the spec: \<^verbatim>\<open>fuse(results_map, weights, k)\<close> of spec 8, fusion ``after weight
  normalization'' (\<^verbatim>\<open>codexlens/search/ranking.py\<close> is not among the sources).\<close>
definition fuse ::
  "(string \<times> search_result list) list \<Rightarrow> (string \<times> pyfloat) list \<Rightarrow> nat
     \<Rightarrow> (string \<times> pyfloat) list" where
  "fuse results_map weights k = reciprocal_rank_fusion results_map (normalize_weights weights) k"

text \<open>Modelled from the spec: the 1-based rank of a path in a source: its position among the distinct
  paths of the source, in order of first occurrence (\<^verbatim>\<open>codexlens/search/ranking.py\<close> is not among the sources).\<close>
definition rank_in :: "string \<Rightarrow> search_result list \<Rightarrow> nat option" where
  "rank_in p rs =
     (if p \<in> path ` set rs
      then Some (Suc (card (path ` set (takeWhile (\<lambda>x. path x \<noteq> p) rs))))
      else None)"

text \<open>Modelled from the spec: the weight \<open>w\<^sub>s\<close> of a source as a real number (\<^verbatim>\<open>codexlens/search/ranking.py\<close> is not among the sources).\<close>
definition weight_of :: "(string \<times> pyfloat) list \<Rightarrow> string \<Rightarrow> real" where
  "weight_of weights s = (case map_of weights s of Some (Fin x) \<Rightarrow> x | _ \<Rightarrow> 0)"

text \<open>Modelled from the spec: the formula \<open>score(p) = \<Sum>\<^sub>s w\<^sub>s / (k + rank\<^sub>s(p))\<close> of the spec's glossary, the
  sum taken over the sources that rank \<open>p\<close> (\<^verbatim>\<open>codexlens/search/ranking.py\<close> is not among the sources).\<close>
definition rrf_formula ::
  "(string \<times> search_result list) list \<Rightarrow> (string \<Rightarrow> real) \<Rightarrow> nat \<Rightarrow> string \<Rightarrow> real" where
  "rrf_formula results_map w k p =
     (\<Sum>src\<leftarrow>results_map.
        case rank_in p (snd src) of None \<Rightarrow> 0 | Some r \<Rightarrow> w (fst src) / real (k + r))"

text \<open>Modelled from the spec: the accumulated score of a path, \<open>0.0\<close> before its first contribution
  (\<^verbatim>\<open>codexlens/search/ranking.py\<close> is not among the sources).\<close>
definition val :: "(string \<times> pyfloat) list \<Rightarrow> string \<Rightarrow> pyfloat" where
  "val acc p = (case map_of acc p of None \<Rightarrow> Fin 0 | Some a \<Rightarrow> a)"

text \<open>Modelled from the spec: the real value of a finite float (\<^verbatim>\<open>codexlens/search/ranking.py\<close> is not among the sources).\<close>
fun the_fin :: "pyfloat \<Rightarrow> real" where
  "the_fin (Fin a) = a"
| "the_fin _ = 0"

text \<open>Modelled from the spec: the contribution \<open>w / (k + r)\<close> of one source to one path
  (\<^verbatim>\<open>codexlens/search/ranking.py\<close> is not among the sources).\<close>
definition contrib :: "real \<Rightarrow> nat \<Rightarrow> string \<Rightarrow> search_result list \<Rightarrow> real" where
  "contrib w k p rs = (case rank_in p rs of None \<Rightarrow> 0 | Some r \<Rightarrow> w / real (k + r))"

section \<open>Properties\<close>

subsection \<open>Strategy selection\<close>

lemma valid_strategies_iff:
  "s \<in> set valid_strategies \<longleftrightarrow>
     s = ''binary'' \<or> s = ''hybrid'' \<or> s = ''binary_rerank'' \<or> s = ''dense_rerank''"
  by (auto simp: valid_strategies_def)

text \<open>
  Claim C5. \<^verbatim>\<open>cascade_search\<close> takes a valid explicit strategy argument first; with no
  argument it takes a valid \<^verbatim>\<open>cascade_strategy\<close> of the config; with neither it takes
  \<^verbatim>\<open>"binary"\<close>. The effective strategy selects \<^verbatim>\<open>binary_cascade_search\<close>,
  \<^verbatim>\<open>binary_rerank_cascade_search\<close>, \<^verbatim>\<open>dense_rerank_cascade_search\<close> or
  \<^verbatim>\<open>hybrid_cascade_search\<close>, and \<open>k\<close> and \<open>coarse_k\<close> are passed on unchanged.
\<close>

theorem cascade_search_strategy_precedence:
  "(strategy = Some s \<and> s \<in> set valid_strategies \<longrightarrow>
      effective_strategy cfg strategy = s)
   \<and> (strategy = None \<and> cfg = Some c \<and> cascade_strategy c = Some cs
        \<and> cs \<in> set valid_strategies \<longrightarrow>
      effective_strategy cfg strategy = cs)
   \<and> (strategy = None \<and> (cfg = None \<or> (cfg = Some c \<and> cascade_strategy c = None)) \<longrightarrow>
      effective_strategy cfg strategy = ''binary'')
   \<and> (effective_strategy cfg strategy = ''binary'' \<longrightarrow>
      cascade_search cfg strategy k coarse_k = (Binary_cascade, k, coarse_k))
   \<and> (effective_strategy cfg strategy = ''binary_rerank'' \<longrightarrow>
      cascade_search cfg strategy k coarse_k = (Binary_rerank_cascade, k, coarse_k))
   \<and> (effective_strategy cfg strategy = ''dense_rerank'' \<longrightarrow>
      cascade_search cfg strategy k coarse_k = (Dense_rerank_cascade, k, coarse_k))
   \<and> (effective_strategy cfg strategy = ''hybrid'' \<longrightarrow>
      cascade_search cfg strategy k coarse_k = (Hybrid_cascade, k, coarse_k))
   \<and> effective_strategy cfg strategy \<in> set valid_strategies"
  by (auto simp: effective_strategy_def strategy_after_config_def cascade_search_def
        valid_strategies_iff split: option.splits)

theorem cascade_search_strategy_precedence_witness:
  "effective_strategy (Some \<lparr>cascade_strategy = Some ''hybrid'', cascade_coarse_k = None,
       cascade_fine_k = None\<rparr>) (Some ''dense_rerank'') = ''dense_rerank''
   \<and> cascade_search (Some \<lparr>cascade_strategy = Some ''hybrid'', cascade_coarse_k = None,
       cascade_fine_k = None\<rparr>) (Some ''dense_rerank'') 10 100 = (Dense_rerank_cascade, 10, 100)
   \<and> effective_strategy (Some \<lparr>cascade_strategy = Some ''binary_rerank'',
       cascade_coarse_k = None, cascade_fine_k = None\<rparr>) None = ''binary_rerank''
   \<and> cascade_search (Some \<lparr>cascade_strategy = Some ''binary_rerank'',
       cascade_coarse_k = None, cascade_fine_k = None\<rparr>) None 10 100
       = (Binary_rerank_cascade, 10, 100)
   \<and> effective_strategy None None = ''binary''
   \<and> cascade_search None None 10 100 = (Binary_cascade, 10, 100)
   \<and> cascade_search None (Some ''hybrid'') 10 100 = (Hybrid_cascade, 10, 100)"
  using
    cascade_search_strategy_precedence [of "Some ''dense_rerank''" "''dense_rerank''"
      "Some \<lparr>cascade_strategy = Some ''hybrid'', cascade_coarse_k = None,
         cascade_fine_k = None\<rparr>" undefined undefined 10 100]
    cascade_search_strategy_precedence [of None undefined
      "Some \<lparr>cascade_strategy = Some ''binary_rerank'', cascade_coarse_k = None,
         cascade_fine_k = None\<rparr>"
      "\<lparr>cascade_strategy = Some ''binary_rerank'', cascade_coarse_k = None,
         cascade_fine_k = None\<rparr>" "''binary_rerank''" 10 100]
    cascade_search_strategy_precedence [of None undefined None undefined undefined 10 100]
    cascade_search_strategy_precedence [of "Some ''hybrid''" "''hybrid''" None undefined
      undefined 10 100]
  by (simp add: valid_strategies_def)

text \<open>
  Claim C9. An explicit strategy argument that is not one of the four valid strings raises
  nothing and selects \<^verbatim>\<open>binary_cascade_search\<close>, whatever \<^verbatim>\<open>cascade_strategy\<close> the
  config holds: the config is consulted only when the argument is \<^verbatim>\<open>None\<close>.
\<close>

theorem cascade_search_invalid_explicit_strategy:
  "s \<notin> set valid_strategies \<Longrightarrow>
     effective_strategy cfg (Some s) = ''binary''
     \<and> cascade_search cfg (Some s) k coarse_k = (Binary_cascade, k, coarse_k)
     \<and> cascade_search cfg (Some s) k coarse_k = cascade_search None (Some s) k coarse_k"
  by (simp add: effective_strategy_def strategy_after_config_def cascade_search_def)

theorem cascade_search_invalid_explicit_strategy_witness:
  "''fastest'' \<notin> set valid_strategies
   \<and> cascade_search (Some \<lparr>cascade_strategy = Some ''hybrid'', cascade_coarse_k = None,
        cascade_fine_k = None\<rparr>) (Some ''fastest'') 10 100 = (Binary_cascade, 10, 100)
   \<and> cascade_search (Some \<lparr>cascade_strategy = Some ''hybrid'', cascade_coarse_k = None,
        cascade_fine_k = None\<rparr>) None 10 100 = (Hybrid_cascade, 10, 100)"
proof -
  have h: "''fastest'' \<notin> set valid_strategies"
    by (simp add: valid_strategies_def)
  have "cascade_search (Some \<lparr>cascade_strategy = Some ''hybrid'', cascade_coarse_k = None,
        cascade_fine_k = None\<rparr>) None 10 100 = (Hybrid_cascade, 10, 100)"
    by (simp add: cascade_search_def effective_strategy_def strategy_after_config_def
          valid_strategies_def)
  with h cascade_search_invalid_explicit_strategy [OF h,
      of "Some \<lparr>cascade_strategy = Some ''hybrid'', cascade_coarse_k = None,
        cascade_fine_k = None\<rparr>" 10 100]
  show ?thesis by simp
qed

subsection \<open>Zero \<open>k\<close> and \<open>coarse_k\<close>\<close>



subsection \<open>Cosine distance to score\<close>

lemma dense_rerank_score_range:
  "0 \<le> dense_rerank_score d \<and> (0 \<le> d \<longrightarrow> dense_rerank_score d \<le> 1)
   \<and> (1 \<le> d \<longrightarrow> dense_rerank_score d = 0)"
  by (simp add: dense_rerank_score_def)

text \<open>
  Claim C1. The dense-rerank cascade converts a cosine distance with
  \<^verbatim>\<open>max(0.0, 1.0 - distance)\<close>, but the centralized vector search of the hybrid engine
  converts it with \<^verbatim>\<open>1.0 - d\<close> and no clamp: at the distance \<open>3/2\<close> the score it
  hands to \<^verbatim>\<open>SearchResult\<close> for chunk 7 is \<open>- 1/2\<close>, where the cascade yields \<open>0\<close>.
\<close>

theorem centralized_vector_score_not_clamped:
  "centralized_vector_scores [3/2] = [- 1/2]
   \<and> row_score (score_map_of [7] (centralized_vector_scores [3/2])) 7 = - 1/2
   \<and> row_score (score_map_of [7] (centralized_vector_scores [3/2])) 7 < 0
   \<and> row_score (score_map_of [7] (centralized_vector_scores [3/2])) 7 \<noteq> max 0 (1 - 3/2)
   \<and> dense_rerank_score (3/2) = 0"
  by (simp add: centralized_vector_scores_def row_score_def score_map_of_def
        dense_rerank_score_def)

subsection \<open>Merging across directories\<close>

lemma dedup_insert_paths:
  "map path (dedup_insert r acc) =
     (if path r \<in> set (map path acc) then map path acc else map path acc @ [path r])"
  by (induction acc) auto

lemma dedup_insert_set: "set (dedup_insert r acc) \<subseteq> insert r (set acc)"
  by (induction acc) auto

lemma dedup_by_path_snoc: "dedup_by_path (rs @ [r]) = dedup_insert r (dedup_by_path rs)"
  by (simp add: dedup_by_path_def)

lemma dedup_distinct: "distinct (map path (dedup_by_path rs))"
proof (induction rs rule: rev_induct)
  case Nil
  show ?case by (simp add: dedup_by_path_def)
next
  case (snoc r rs)
  then show ?case by (simp add: dedup_by_path_snoc dedup_insert_paths)
qed

lemma dedup_paths: "set (map path (dedup_by_path rs)) = set (map path rs)"
proof (induction rs rule: rev_induct)
  case Nil
  show ?case by (simp add: dedup_by_path_def)
next
  case (snoc r rs)
  then show ?case by (auto simp: dedup_by_path_snoc dedup_insert_paths)
qed

lemma dedup_subset: "set (dedup_by_path rs) \<subseteq> set rs"
proof (induction rs rule: rev_induct)
  case Nil
  show ?case by (simp add: dedup_by_path_def)
next
  case (snoc r rs)
  then show ?case using dedup_insert_set [of r "dedup_by_path rs"]
    by (auto simp: dedup_by_path_snoc)
qed

text \<open>
  One step of the loop keeps the invariant: every entry of the dict has the highest
  score among the results seen so far that share its path.
\<close>

lemma dedup_insert_max:
  assumes "distinct (map path acc)"
    and "\<forall>y\<in>S. path y \<in> path ` set acc"
    and "\<forall>x\<in>set acc. \<forall>y\<in>S. path y = path x \<longrightarrow> score y \<le> score x"
  shows "\<forall>x\<in>set (dedup_insert r acc). \<forall>y\<in>insert r S.
           path y = path x \<longrightarrow> score y \<le> score x"
  using assms
proof (induction acc arbitrary: S)
  case Nil
  then show ?case by auto
next
  case (Cons a acc)
  show ?case
  proof (cases "path a = path r")
    case True
    with Cons.prems show ?thesis by (auto simp: rev_image_eqI)
  next
    case False
    let ?S' = "{y \<in> S. path y \<noteq> path a}"
    have 1: "distinct (map path acc)" using Cons.prems(1) by simp
    have 2: "\<forall>y\<in>?S'. path y \<in> path ` set acc" using Cons.prems(2) by auto
    have 3: "\<forall>x\<in>set acc. \<forall>y\<in>?S'. path y = path x \<longrightarrow> score y \<le> score x"
      using Cons.prems(3) by auto
    from Cons.IH [OF 1 2 3]
    have ih: "\<forall>x\<in>set (dedup_insert r acc). \<forall>y\<in>insert r ?S'.
                path y = path x \<longrightarrow> score y \<le> score x" .
    have sub: "set (dedup_insert r acc) \<subseteq> insert r (set acc)" by (rule dedup_insert_set)
    have pa: "\<forall>z\<in>set (dedup_insert r acc). path z \<noteq> path a"
    proof
      fix z assume "z \<in> set (dedup_insert r acc)"
      with sub have "z = r \<or> z \<in> set acc" by auto
      moreover have "\<forall>w\<in>set acc. path w \<noteq> path a"
        using Cons.prems(1) by (auto simp: image_iff)
      ultimately show "path z \<noteq> path a" using False by auto
    qed
    show ?thesis
    proof (intro ballI impI)
      fix x y assume x: "x \<in> set (dedup_insert r (a # acc))" and y: "y \<in> insert r S"
        and p: "path y = path x"
      from x False have "x = a \<or> x \<in> set (dedup_insert r acc)" by auto
      then show "score y \<le> score x"
      proof
        assume "x = a"
        with y p False have "y \<in> S" by auto
        with Cons.prems(3) p \<open>x = a\<close> show ?thesis by auto
      next
        assume xi: "x \<in> set (dedup_insert r acc)"
        with pa have "path x \<noteq> path a" by blast
        with y p have "y \<in> insert r ?S'" by auto
        with ih xi p show ?thesis by blast
      qed
    qed
  qed
qed

lemma dedup_max:
  "\<forall>x\<in>set (dedup_by_path rs). \<forall>y\<in>set rs. path y = path x \<longrightarrow> score y \<le> score x"
proof (induction rs rule: rev_induct)
  case Nil
  show ?case by (simp add: dedup_by_path_def)
next
  case (snoc r rs)
  have "\<forall>y\<in>set rs. path y \<in> path ` set (dedup_by_path rs)"
    using dedup_paths [of rs] by auto
  from dedup_insert_max [OF dedup_distinct this snoc.IH, of r]
  show ?case by (simp add: dedup_by_path_snoc)
qed

lemma ranked_unique_set: "set (ranked_unique rs) = set (dedup_by_path rs)"
  by (simp add: ranked_unique_def)

lemma ranked_unique_distinct: "distinct (map path (ranked_unique rs))"
  using dedup_distinct [of rs] by (simp add: ranked_unique_def distinct_map)

lemma ranked_unique_sorted: "sorted_wrt (\<lambda>a b. score b \<le> score a) (ranked_unique rs)"
proof -
  have "sorted (map (\<lambda>r. - score r) (ranked_unique rs))"
    by (simp add: ranked_unique_def)
  then show ?thesis by (simp add: sorted_map)
qed

lemma take_min_length: "take (min k (length ys)) ys = take k ys"
  by (cases "k \<le> length ys") (simp_all add: min_def)

lemma py_slice_nonneg:
  assumes "0 \<le> a" and "0 \<le> l"
  shows "py_slice a (a + l) xs = take (nat l) (drop (nat a) xs)"
proof (cases "nat a \<le> length xs")
  case True
  have lo: "py_index a (length xs) = nat a"
    using assms True by (simp add: py_index_def)
  have hi: "py_index (a + l) (length xs) = min (nat a + nat l) (length xs)"
    using assms by (simp add: py_index_def nat_add_distrib)
  have "min (nat a + nat l) (length xs) - nat a = min (nat l) (length (drop (nat a) xs))"
    using True by simp arith
  then show ?thesis
    by (simp only: py_slice_def Let_def lo hi take_min_length)
next
  case False
  then show ?thesis using assms by (simp add: py_slice_def py_index_def Let_def)
qed

lemma py_slice_length:
  assumes "0 \<le> l"
  shows "int (length (py_slice a (a + l) xs)) \<le> l"
proof -
  have "int (py_index (a + l) (length xs)) - int (py_index a (length xs)) \<le> l"
    using assms by (auto simp: py_index_def min_def max_def)
  then have "int (py_index (a + l) (length xs) - py_index a (length xs)) \<le> l"
    using assms by linarith
  then show ?thesis
    by (simp add: py_slice_def Let_def)
qed

lemma py_slice_set: "set (py_slice a b xs) \<subseteq> set xs"
  by (auto simp: py_slice_def Let_def dest: in_set_takeD in_set_dropD)

lemma py_slice_distinct_map: "distinct (map f xs) \<Longrightarrow> distinct (map f (py_slice a b xs))"
  by (simp add: py_slice_def Let_def take_map [symmetric] drop_map [symmetric]
        del: take_map drop_map)

lemma py_slice_sorted_wrt: "sorted_wrt P xs \<Longrightarrow> sorted_wrt P (py_slice a b xs)"
  by (simp add: py_slice_def Let_def sorted_wrt_take sorted_wrt_drop)

lemma dedup_insert_mem:
  "z \<in> set (dedup_insert r acc) \<Longrightarrow>
     z \<in> set acc \<or> (z = r \<and> (path r \<notin> path ` set acc
        \<or> (\<exists>x\<in>set acc. path x = path r \<and> score x < score r)))"
  by (induction acc) (auto split: if_splits)

lemma dedup_first_max:
  "\<forall>x\<in>set (dedup_by_path rs). \<exists>pre post. rs = pre @ x # post
       \<and> (\<forall>y\<in>set pre. path y = path x \<longrightarrow> score y < score x)"
proof (induction rs rule: rev_induct)
  case Nil
  show ?case by (simp add: dedup_by_path_def)
next
  case (snoc r rs)
  show ?case
  proof
    fix x assume "x \<in> set (dedup_by_path (rs @ [r]))"
    then have "x \<in> set (dedup_insert r (dedup_by_path rs))"
      by (simp add: dedup_by_path_snoc)
    from dedup_insert_mem [OF this]
    consider (old) "x \<in> set (dedup_by_path rs)"
      | (new) "x = r" "path r \<notin> path ` set (dedup_by_path rs)"
      | (repl) y where "x = r" "y \<in> set (dedup_by_path rs)" "path y = path r"
          "score y < score r"
      by blast
    then show "\<exists>pre post. rs @ [r] = pre @ x # post
       \<and> (\<forall>y\<in>set pre. path y = path x \<longrightarrow> score y < score x)"
    proof cases
      case old
      with snoc.IH obtain pre post where "rs = pre @ x # post"
        and "\<forall>y\<in>set pre. path y = path x \<longrightarrow> score y < score x" by blast
      then have "rs @ [r] = pre @ x # (post @ [r])
        \<and> (\<forall>y\<in>set pre. path y = path x \<longrightarrow> score y < score x)" by simp
      then show ?thesis by blast
    next
      case new
      from new(2) dedup_paths [of rs] have "\<forall>y\<in>set rs. path y \<noteq> path r"
        by (metis image_eqI list.set_map)
      with new(1) have "rs @ [r] = rs @ x # []
        \<and> (\<forall>y\<in>set rs. path y = path x \<longrightarrow> score y < score x)" by simp
      then show ?thesis by blast
    next
      case repl
      have "\<forall>z\<in>set rs. path z = path r \<longrightarrow> score z < score r"
      proof (intro ballI impI)
        fix z assume "z \<in> set rs" "path z = path r"
        with dedup_max [of rs] repl(2,3) have "score z \<le> score y" by auto
        with repl(4) show "score z < score r" by simp
      qed
      with repl(1) have "rs @ [r] = rs @ x # []
        \<and> (\<forall>y\<in>set rs. path y = path x \<longrightarrow> score y < score x)" by simp
      then show ?thesis by blast
    qed
  qed
qed

lemma dedup_order: "map path (dedup_by_path rs) = rev (remdups (rev (map path rs)))"
proof (induction rs rule: rev_induct)
  case Nil
  show ?case by (simp add: dedup_by_path_def)
next
  case (snoc r rs)
  have "path r \<in> set (map path (dedup_by_path rs)) \<longleftrightarrow> path r \<in> set (map path rs)"
    by (simp only: dedup_paths)
  with snoc show ?case
    by (simp add: dedup_by_path_snoc dedup_insert_paths)
qed

lemma ranked_unique_stable:
  "filter (\<lambda>r. score r = s) (ranked_unique rs) = filter (\<lambda>r. score r = s) (dedup_by_path rs)"
  using sort_key_stable [of "\<lambda>r. - score r" "- s" "dedup_by_path rs"]
  by (simp add: ranked_unique_def)

lemma py_slice_segment: "\<exists>pre post. xs = pre @ py_slice a b xs @ post"
proof -
  let ?lo = "py_index a (length xs)" and ?hi = "py_index b (length xs)"
  have "xs = take ?lo xs @ take (?hi - ?lo) (drop ?lo xs) @ drop (?hi - ?lo) (drop ?lo xs)"
    by (simp only: append_take_drop_id)
  then show ?thesis unfolding py_slice_def Let_def by blast
qed

text \<open>
  Claim C4, amended. For every list of results the merge step keeps one result per path:
  for each path the first of the results of highest score with that path. It orders them by
  score, highest first, results of equal score staying in the order in which their paths
  first appear in the input (the order of the dict); every path of the input is kept. The
  output is the slice \<^verbatim>\<open>unique_results[offset:offset + limit]\<close>, a segment of that list: for
  \<open>total_limit \<ge> 0\<close> and \<open>offset \<ge> 0\<close> the list with the first \<open>offset\<close> elements dropped
  and then cut to \<open>total_limit\<close> elements. For every \<open>offset\<close>, the output has at most one
  result per path, and at most \<open>total_limit\<close> elements when \<open>total_limit \<ge> 0\<close>.
\<close>

theorem merge_and_rank_dedup_sort_page:
  "distinct (map path (ranked_unique rs))
   \<and> set (map path (ranked_unique rs)) = set (map path rs)
   \<and> set (ranked_unique rs) \<subseteq> set rs
   \<and> (\<forall>r\<in>set (ranked_unique rs). \<forall>r'\<in>set rs.
         path r' = path r \<longrightarrow> score r' \<le> score r)
   \<and> (\<forall>r\<in>set (ranked_unique rs). \<exists>pre post. rs = pre @ r # post
         \<and> (\<forall>r'\<in>set pre. path r' = path r \<longrightarrow> score r' < score r))
   \<and> sorted_wrt (\<lambda>a b. score b \<le> score a) (ranked_unique rs)
   \<and> (\<forall>s. filter (\<lambda>r. score r = s) (ranked_unique rs)
            = filter (\<lambda>r. score r = s) (dedup_by_path rs))
   \<and> map path (dedup_by_path rs) = rev (remdups (rev (map path rs)))
   \<and> (\<exists>pre post. ranked_unique rs = pre @ merge_and_rank rs limit offset @ post)
   \<and> (0 \<le> limit \<and> 0 \<le> offset \<longrightarrow>
         merge_and_rank rs limit offset
           = take (nat limit) (drop (nat offset) (ranked_unique rs)))
   \<and> (0 \<le> limit \<longrightarrow> int (length (merge_and_rank rs limit offset)) \<le> limit)
   \<and> distinct (map path (merge_and_rank rs limit offset))
   \<and> sorted_wrt (\<lambda>a b. score b \<le> score a) (merge_and_rank rs limit offset)"
proof -
  have 1: "distinct (map path (ranked_unique rs))"
    by (rule ranked_unique_distinct)
  have 2: "set (map path (ranked_unique rs)) = set (map path rs)"
    using dedup_paths [of rs] by (simp add: ranked_unique_set)
  have 0: "set (ranked_unique rs) \<subseteq> set rs"
    using dedup_subset [of rs] by (simp add: ranked_unique_set)
  have 3: "\<forall>r\<in>set (ranked_unique rs). \<forall>r'\<in>set rs.
         path r' = path r \<longrightarrow> score r' \<le> score r"
    using dedup_max [of rs] by (simp add: ranked_unique_set)
  have 4: "\<forall>r\<in>set (ranked_unique rs). \<exists>pre post. rs = pre @ r # post
         \<and> (\<forall>r'\<in>set pre. path r' = path r \<longrightarrow> score r' < score r)"
    using dedup_first_max [of rs] by (simp only: ranked_unique_set)
  have 5: "sorted_wrt (\<lambda>a b. score b \<le> score a) (ranked_unique rs)"
    by (rule ranked_unique_sorted)
  have 6: "\<forall>s. filter (\<lambda>r. score r = s) (ranked_unique rs)
            = filter (\<lambda>r. score r = s) (dedup_by_path rs)"
    by (simp add: ranked_unique_stable)
  have 7: "map path (dedup_by_path rs) = rev (remdups (rev (map path rs)))"
    by (rule dedup_order)
  have 8: "\<exists>pre post. ranked_unique rs = pre @ merge_and_rank rs limit offset @ post"
    unfolding merge_and_rank_def by (rule py_slice_segment)
  have 9: "0 \<le> limit \<and> 0 \<le> offset \<longrightarrow>
         merge_and_rank rs limit offset
           = take (nat limit) (drop (nat offset) (ranked_unique rs))"
    by (simp add: merge_and_rank_def py_slice_nonneg)
  have 10: "0 \<le> limit \<longrightarrow> int (length (merge_and_rank rs limit offset)) \<le> limit"
    by (simp add: merge_and_rank_def py_slice_length)
  have 11: "distinct (map path (merge_and_rank rs limit offset))"
    unfolding merge_and_rank_def by (rule py_slice_distinct_map [OF 1])
  have 12: "sorted_wrt (\<lambda>a b. score b \<le> score a) (merge_and_rank rs limit offset)"
    unfolding merge_and_rank_def by (rule py_slice_sorted_wrt [OF 5])
  from 1 2 0 3 4 5 6 7 8 9 10 11 12 show ?thesis by (intro conjI)
qed

theorem merge_and_rank_dedup_sort_page_witness:
  "merge_and_rank
     [\<lparr>path = ''a.py'', score = 3, excerpt = ''a0'', content = None\<rparr>,
      \<lparr>path = ''b.py'', score = 4, excerpt = ''b0'', content = None\<rparr>,
      \<lparr>path = ''a.py'', score = 5, excerpt = ''a1'', content = None\<rparr>,
      \<lparr>path = ''c.py'', score = 4, excerpt = ''c0'', content = None\<rparr>,
      \<lparr>path = ''a.py'', score = 5, excerpt = ''a2'', content = None\<rparr>] 3 0
     = [\<lparr>path = ''a.py'', score = 5, excerpt = ''a1'', content = None\<rparr>,
        \<lparr>path = ''b.py'', score = 4, excerpt = ''b0'', content = None\<rparr>,
        \<lparr>path = ''c.py'', score = 4, excerpt = ''c0'', content = None\<rparr>]
   \<and> merge_and_rank
     [\<lparr>path = ''a.py'', score = 3, excerpt = ''a0'', content = None\<rparr>,
      \<lparr>path = ''b.py'', score = 4, excerpt = ''b0'', content = None\<rparr>,
      \<lparr>path = ''a.py'', score = 5, excerpt = ''a1'', content = None\<rparr>,
      \<lparr>path = ''c.py'', score = 4, excerpt = ''c0'', content = None\<rparr>,
      \<lparr>path = ''a.py'', score = 5, excerpt = ''a2'', content = None\<rparr>] 1 (- 1)
     = []
   \<and> int (length (merge_and_rank
     [\<lparr>path = ''a.py'', score = 3, excerpt = ''a0'', content = None\<rparr>,
      \<lparr>path = ''b.py'', score = 4, excerpt = ''b0'', content = None\<rparr>,
      \<lparr>path = ''a.py'', score = 5, excerpt = ''a1'', content = None\<rparr>,
      \<lparr>path = ''c.py'', score = 4, excerpt = ''c0'', content = None\<rparr>,
      \<lparr>path = ''a.py'', score = 5, excerpt = ''a2'', content = None\<rparr>] 1 1)) \<le> 1"
proof -
  let ?rs = "[\<lparr>path = ''a.py'', score = 3, excerpt = ''a0'', content = None\<rparr>,
      \<lparr>path = ''b.py'', score = 4, excerpt = ''b0'', content = None\<rparr>,
      \<lparr>path = ''a.py'', score = 5, excerpt = ''a1'', content = None\<rparr>,
      \<lparr>path = ''c.py'', score = 4, excerpt = ''c0'', content = None\<rparr>,
      \<lparr>path = ''a.py'', score = 5, excerpt = ''a2'', content = None\<rparr>]"
  have ru: "ranked_unique ?rs
     = [\<lparr>path = ''a.py'', score = 5, excerpt = ''a1'', content = None\<rparr>,
        \<lparr>path = ''b.py'', score = 4, excerpt = ''b0'', content = None\<rparr>,
        \<lparr>path = ''c.py'', score = 4, excerpt = ''c0'', content = None\<rparr>]"
    by (simp add: ranked_unique_def dedup_by_path_def)
  have a: "merge_and_rank ?rs 3 0 = take (nat 3) (drop (nat 0) (ranked_unique ?rs))"
    using merge_and_rank_dedup_sort_page [of ?rs 3 0] by simp
  have b: "merge_and_rank ?rs 1 (- 1) = []"
    by (simp add: merge_and_rank_def ru py_slice_def py_index_def)
  have c: "int (length (merge_and_rank ?rs 1 1)) \<le> 1"
    using merge_and_rank_dedup_sort_page [of ?rs 1 1] by simp
  from a b c show ?thesis by (simp add: ru)
qed

text \<open>
  The claim as stated, for every \<open>total_limit\<close>: with \<open>total_limit = -1\<close> the slice
  \<^verbatim>\<open>unique_results[0:-1]\<close> drops the last result only, so three paths give two results,
  more than \<open>total_limit\<close>.
\<close>

theorem merge_and_rank_negative_limit_counterexample:
  "merge_and_rank
     [\<lparr>path = ''a.py'', score = 3, excerpt = [], content = None\<rparr>,
      \<lparr>path = ''b.py'', score = 2, excerpt = [], content = None\<rparr>,
      \<lparr>path = ''c.py'', score = 1, excerpt = [], content = None\<rparr>] (- 1) 0
     = [\<lparr>path = ''a.py'', score = 3, excerpt = [], content = None\<rparr>,
        \<lparr>path = ''b.py'', score = 2, excerpt = [], content = None\<rparr>]
   \<and> \<not> int (length (merge_and_rank
     [\<lparr>path = ''a.py'', score = 3, excerpt = [], content = None\<rparr>,
      \<lparr>path = ''b.py'', score = 2, excerpt = [], content = None\<rparr>,
      \<lparr>path = ''c.py'', score = 1, excerpt = [], content = None\<rparr>] (- 1) 0)) \<le> - 1"
  by (simp add: merge_and_rank_def ranked_unique_def dedup_by_path_def py_slice_def
        py_index_def)

subsection \<open>API reranker: retries\<close>

declare request_loop.simps [simp del]

lemma request_loop_sleeps_length: "length (snd (request_loop rr env a sl)) \<le> length sl + (max_retries rr - a)"
proof (induction rr env a sl rule: request_loop.induct)
  case (1 rr env attempt sleeps)
  show ?case
  proof (cases "post env attempt")
    case Post_raises
    with 1(1) show ?thesis
      by (subst request_loop.simps) (auto simp: not_less)
  next
    case (Response resp)
    with 1(2) show ?thesis
      by (subst request_loop.simps) (auto simp: not_less split: json_body.splits)
  qed
qed

lemma request_loop_retry:
  assumes "attempt < max_retries rr" and "post env attempt = Response resp"
    and "status_code resp = 429 \<or> (500 \<le> status_code resp \<and> status_code resp \<le> 599)"
  shows "request_loop rr env attempt sleeps =
     request_loop rr env (Suc attempt)
       (sleeps @ [sleep_backoff rr (jitter env attempt) attempt (retry_after resp)])"
  using assms by (subst request_loop.simps) (auto simp: should_retry_status_def)

lemma request_loop_unauthorized:
  assumes "attempt \<le> max_retries rr" and "post env attempt = Response resp"
    and "status_code resp = 401 \<or> status_code resp = 403"
  shows "request_loop rr env attempt sleeps = (Inl (Unauthorized (status_code resp)), sleeps)"
  using assms by (subst request_loop.simps) (auto simp: should_retry_status_def)

lemma request_loop_other_status:
  assumes "attempt \<le> max_retries rr" and "post env attempt = Response resp"
    and "status_code resp \<ge> 400" and "\<not> should_retry_status (status_code resp)"
    and "status_code resp \<noteq> 401" and "status_code resp \<noteq> 403"
  shows "request_loop rr env attempt sleeps = (Inl (Http_failed (status_code resp)
                        (if body_preview resp = [] then empty_marker else body_preview resp)), sleeps)"
  using assms by (subst request_loop.simps) (auto simp: should_retry_status_def)

lemma body_preview_length: "length (body_preview resp) \<le> 301
  \<and> take 300 (body_preview resp) = take 300 (py_strip (case resp_text resp of None \<Rightarrow> [] | Some t \<Rightarrow> t))"
  by (simp add: body_preview_def Let_def)

text \<open>
  Claim C7. A response with status 429 or 500..599 at an attempt before the last is
  followed by one sleep and the next attempt; the sleep is \<open>min(retry_after, cap)\<close> for
  a positive numeric \<^verbatim>\<open>Retry-After\<close>, else \<open>min(cap, base * 2^attempt + jitter)\<close>, never
  more than the cap; at most \<open>max_retries\<close> sleeps, so at most \<open>max_retries\<close> further
  attempts, are made. Status 401 or 403 raises at once with no sleep; any other status from
  400 on raises at once with the stripped body cut to 300 characters (and an ellipsis
  mark). The defaults are 3 retries, base 0.5 s and cap 8 s.
\<close>

theorem request_json_status_handling:
  "(should_retry_status s \<longleftrightarrow> s = 429 \<or> (500 \<le> s \<and> s \<le> 599))
   \<and> (post env attempt = Response resp \<and> attempt < max_retries rr
        \<and> should_retry_status (status_code resp) \<longrightarrow>
      request_loop rr env attempt sleeps =
        request_loop rr env (Suc attempt)
          (sleeps @ [sleep_backoff rr (jitter env attempt) attempt (retry_after resp)]))
   \<and> (ra = Some r \<and> r > 0 \<longrightarrow> sleep_backoff rr j attempt ra = min r (backoff_max_s rr))
   \<and> (ra = None \<or> (ra = Some r \<and> r \<le> 0) \<longrightarrow>
      sleep_backoff rr j attempt ra
        = min (backoff_max_s rr) (backoff_base_s rr * 2 ^ attempt + j))
   \<and> sleep_backoff rr j attempt ra \<le> backoff_max_s rr
   \<and> length (snd (request_json rr env)) \<le> max_retries rr
   \<and> (post env attempt = Response resp \<and> attempt \<le> max_retries rr
        \<and> (status_code resp = 401 \<or> status_code resp = 403) \<longrightarrow>
      request_loop rr env attempt sleeps = (Inl (Unauthorized (status_code resp)), sleeps))
   \<and> (post env attempt = Response resp \<and> attempt \<le> max_retries rr
        \<and> status_code resp \<ge> 400 \<and> \<not> should_retry_status (status_code resp)
        \<and> status_code resp \<noteq> 401 \<and> status_code resp \<noteq> 403 \<longrightarrow>
      request_loop rr env attempt sleeps =
        (Inl (Http_failed (status_code resp)
           (if body_preview resp = [] then empty_marker else body_preview resp)), sleeps))
   \<and> length (body_preview resp) \<le> 301
   \<and> take 300 (body_preview resp)
       = take 300 (py_strip (case resp_text resp of None \<Rightarrow> [] | Some t \<Rightarrow> t))
   \<and> max_retries default_reranker = 3
   \<and> backoff_base_s default_reranker = 1/2
   \<and> backoff_max_s default_reranker = 8"
proof -
  have a: "should_retry_status s \<longleftrightarrow> s = 429 \<or> (500 \<le> s \<and> s \<le> 599)"
    by (simp add: should_retry_status_def)
  have b: "post env attempt = Response resp \<and> attempt < max_retries rr
        \<and> should_retry_status (status_code resp) \<longrightarrow>
      request_loop rr env attempt sleeps =
        request_loop rr env (Suc attempt)
          (sleeps @ [sleep_backoff rr (jitter env attempt) attempt (retry_after resp)])"
    using request_loop_retry [of attempt rr env resp sleeps] by (auto simp: should_retry_status_def)
  have c: "ra = Some r \<and> r > 0 \<longrightarrow> sleep_backoff rr j attempt ra = min r (backoff_max_s rr)"
    by (simp add: sleep_backoff_def)
  have d: "ra = None \<or> (ra = Some r \<and> r \<le> 0) \<longrightarrow>
      sleep_backoff rr j attempt ra
        = min (backoff_max_s rr) (backoff_base_s rr * 2 ^ attempt + j)"
    by (auto simp: sleep_backoff_def)
  have e: "sleep_backoff rr j attempt ra \<le> backoff_max_s rr"
    by (auto simp: sleep_backoff_def Let_def split: option.splits)
  have f: "length (snd (request_json rr env)) \<le> max_retries rr"
    using request_loop_sleeps_length [of rr env 0 "[]"] by (simp add: request_json_def)
  have g: "post env attempt = Response resp \<and> attempt \<le> max_retries rr
        \<and> (status_code resp = 401 \<or> status_code resp = 403) \<longrightarrow>
      request_loop rr env attempt sleeps = (Inl (Unauthorized (status_code resp)), sleeps)"
    using request_loop_unauthorized [of attempt rr env resp sleeps] by blast
  have h: "post env attempt = Response resp \<and> attempt \<le> max_retries rr
        \<and> status_code resp \<ge> 400 \<and> \<not> should_retry_status (status_code resp)
        \<and> status_code resp \<noteq> 401 \<and> status_code resp \<noteq> 403 \<longrightarrow>
      request_loop rr env attempt sleeps =
        (Inl (Http_failed (status_code resp)
           (if body_preview resp = [] then empty_marker else body_preview resp)), sleeps)"
    using request_loop_other_status [of attempt rr env resp sleeps] by blast
  have i: "length (body_preview resp) \<le> 301
   \<and> take 300 (body_preview resp)
       = take 300 (py_strip (case resp_text resp of None \<Rightarrow> [] | Some t \<Rightarrow> t))"
    by (rule body_preview_length)
  have k: "max_retries default_reranker = 3 \<and> backoff_base_s default_reranker = 1/2
   \<and> backoff_max_s default_reranker = 8"
    by (simp add: default_reranker_def init_reranker_def init_max_retries_def
          init_backoff_base_s_def init_backoff_max_s_def)
  from a b c d e f g h i k show ?thesis by blast
qed

theorem request_json_status_handling_witness:
  "request_json default_reranker
     \<lparr>post = (\<lambda>n. if n < 2
        then Response \<lparr>status_code = 503, resp_text = None, retry_after = None,
               json = Json_invalid\<rparr>
        else Response \<lparr>status_code = 404, resp_text = Some (replicate 400 65),
               retry_after = None, json = Json_invalid\<rparr>),
      jitter = (\<lambda>n. 1/4)\<rparr>
     = (Inl (Http_failed 404 (replicate 300 65 @ [8230])), [3/4, 5/4])
   \<and> request_json default_reranker
     \<lparr>post = (\<lambda>n. Response \<lparr>status_code = 401, resp_text = None, retry_after = None,
               json = Json_invalid\<rparr>),
      jitter = (\<lambda>n. 1/4)\<rparr>
     = (Inl (Unauthorized 401), [])
   \<and> sleep_backoff default_reranker (1/4) 1 (Some 2) = 2
   \<and> sleep_backoff default_reranker (1/4) 1 (Some 30) = 8
   \<and> sleep_backoff default_reranker (1/4) 1 None = 5/4
   \<and> sleep_backoff default_reranker (1/4) 5 None = 8"
  using
    request_json_status_handling [where s = 503 and rr = default_reranker and attempt = 0
      and sleeps = "[]" and ra = "Some 2" and r = 2 and j = "1/4"
      and resp = "\<lparr>status_code = 503, resp_text = None, retry_after = None,
               json = Json_invalid\<rparr>"
      and env = "\<lparr>post = (\<lambda>n. if n < 2
        then Response \<lparr>status_code = 503, resp_text = None, retry_after = None,
               json = Json_invalid\<rparr>
        else Response \<lparr>status_code = 404, resp_text = Some (replicate 400 65),
               retry_after = None, json = Json_invalid\<rparr>),
      jitter = (\<lambda>n. 1/4)\<rparr>"]
    request_json_status_handling [where s = 404 and rr = default_reranker and attempt = 2
      and sleeps = "[3/4, 5/4]" and ra = None and r = 0 and j = "1/4"
      and resp = "\<lparr>status_code = 404, resp_text = Some (replicate 400 65), retry_after = None,
               json = Json_invalid\<rparr>"
      and env = "\<lparr>post = (\<lambda>n. if n < 2
        then Response \<lparr>status_code = 503, resp_text = None, retry_after = None,
               json = Json_invalid\<rparr>
        else Response \<lparr>status_code = 404, resp_text = Some (replicate 400 65),
               retry_after = None, json = Json_invalid\<rparr>),
      jitter = (\<lambda>n. 1/4)\<rparr>"]
    request_json_status_handling [where s = 401 and rr = default_reranker and attempt = 0
      and sleeps = "[]" and ra = None and r = 0 and j = "1/4"
      and resp = "\<lparr>status_code = 401, resp_text = None, retry_after = None,
               json = Json_invalid\<rparr>"
      and env = "\<lparr>post = (\<lambda>n. Response \<lparr>status_code = 401, resp_text = None,
               retry_after = None, json = Json_invalid\<rparr>),
      jitter = (\<lambda>n. 1/4)\<rparr>"]
  by (simp add: request_json_def default_reranker_def init_reranker_def init_max_retries_def
        init_backoff_base_s_def init_backoff_max_s_def request_loop.simps
        should_retry_status_def sleep_backoff_def body_preview_def py_strip_def
        py_isspace_def ellipsis_def)

subsection \<open>Collecting descendant indexes\<close>

declare collect_recursive.simps [simp del]

lemma collect_nil: "collect_recursive t depth [] cd st = st"
  by (simp add: collect_recursive.simps)

lemma collect_visited:
  "resolve t p \<in> v \<Longrightarrow>
     collect_recursive t depth (p # rest) cd (c, v) = collect_recursive t depth rest cd (c, v)"
  by (simp add: collect_recursive.simps)

lemma collect_missing:
  "resolve t p \<notin> v \<Longrightarrow> map_of (indexes t) (resolve t p) = None \<Longrightarrow>
     collect_recursive t depth (p # rest) cd (c, v)
       = collect_recursive t depth rest cd (c, insert (resolve t p) v)"
  by (simp add: collect_recursive.simps)

lemma collect_leaf:
  "resolve t p \<notin> v \<Longrightarrow> map_of (indexes t) (resolve t p) = Some subs \<Longrightarrow>
   (0 \<le> depth \<and> depth \<le> int cd) \<or> subs = None \<Longrightarrow>
     collect_recursive t depth (p # rest) cd (c, v)
       = collect_recursive t depth rest cd (c @ [resolve t p], insert (resolve t p) v)"
  by (auto simp: collect_recursive.simps Let_def)

lemma collect_node:
  "resolve t p \<notin> v \<Longrightarrow> map_of (indexes t) (resolve t p) = Some (Some subdirs) \<Longrightarrow>
   \<not> (0 \<le> depth \<and> depth \<le> int cd) \<Longrightarrow>
     collect_recursive t depth (p # rest) cd (c, v)
       = collect_recursive t depth rest cd
           (collect_recursive t depth subdirs (Suc cd)
              (c @ [resolve t p], insert (resolve t p) v))"
  by (auto simp: collect_recursive.simps Let_def)

lemma collect_cases [case_names Nil Visited Missing Leaf Node]:
  assumes "\<And>t depth cd st. P t depth [] cd st"
    and "\<And>t depth p rest cd c v. resolve t p \<in> v \<Longrightarrow> P t depth rest cd (c, v) \<Longrightarrow>
           P t depth (p # rest) cd (c, v)"
    and "\<And>t depth p rest cd c v. resolve t p \<notin> v \<Longrightarrow>
           map_of (indexes t) (resolve t p) = None \<Longrightarrow>
           P t depth rest cd (c, insert (resolve t p) v) \<Longrightarrow> P t depth (p # rest) cd (c, v)"
    and "\<And>t depth p rest cd c v subs. resolve t p \<notin> v \<Longrightarrow>
           map_of (indexes t) (resolve t p) = Some subs \<Longrightarrow>
           (0 \<le> depth \<and> depth \<le> int cd) \<or> subs = None \<Longrightarrow>
           P t depth rest cd (c @ [resolve t p], insert (resolve t p) v) \<Longrightarrow>
           P t depth (p # rest) cd (c, v)"
    and "\<And>t depth p rest cd c v subdirs. resolve t p \<notin> v \<Longrightarrow>
           map_of (indexes t) (resolve t p) = Some (Some subdirs) \<Longrightarrow>
           \<not> (0 \<le> depth \<and> depth \<le> int cd) \<Longrightarrow>
           P t depth subdirs (Suc cd) (c @ [resolve t p], insert (resolve t p) v) \<Longrightarrow>
           P t depth rest cd (collect_recursive t depth subdirs (Suc cd)
                        (c @ [resolve t p], insert (resolve t p) v)) \<Longrightarrow>
           P t depth (p # rest) cd (c, v)"
  shows "P t depth ps cd st"
proof (induction t depth ps cd st rule: collect_recursive.induct)
  case (1 t depth current_depth st)
  show ?case by (rule assms(1))
next
  case (2 t depth index_path rest current_depth collected visited)
  show ?case
  proof (cases "resolve t index_path \<in> visited")
    case True
    with 2(1) assms(2) show ?thesis by simp
  next
    case nv: False
    show ?thesis
    proof (cases "map_of (indexes t) (resolve t index_path)")
      case None
      with 2(2) nv assms(3) show ?thesis by simp
    next
      case (Some subs)
      show ?thesis
      proof (cases "depth \<ge> 0 \<and> int current_depth \<ge> depth")
        case True
        with 2(3) [OF refl nv Some] nv Some assms(4) show ?thesis by simp
      next
        case nd: False
        show ?thesis
        proof (cases subs)
          case None
          with 2(4) [OF refl nv Some nd] nv Some assms(4) show ?thesis by simp
        next
          case (Some subdirs)
          note m = \<open>map_of (indexes t) (resolve t index_path) = Some subs\<close>
          from 2(5) [OF refl nv m nd Some] 2(6) [OF refl nv m nd Some] nv m nd Some
          show ?thesis by (intro assms(5)) auto
        qed
      qed
    qed
  qed
qed


lemma collect_mono: "snd st \<subseteq> snd (collect_recursive t depth ps cd st)"
proof (induction t depth ps cd st rule: collect_cases)
  case (Nil t depth cd st)
  show ?case by (simp add: collect_nil)
next
  case (Visited t depth p rest cd c v)
  then show ?case by (simp add: collect_visited)
next
  case (Missing t depth p rest cd c v)
  then show ?case by (simp add: collect_missing)
next
  case (Leaf t depth p rest cd c v subs)
  then show ?case by (simp add: collect_leaf)
next
  case (Node t depth p rest cd c v subdirs)
  then show ?case by (auto simp: collect_node)
qed

lemma collect_covers: "resolve t ` set ps \<subseteq> snd (collect_recursive t depth ps cd st)"
proof (induction t depth ps cd st rule: collect_cases)
  case (Nil t depth cd st)
  show ?case by simp
next
  case (Visited t depth p rest cd c v)
  then show ?case using collect_mono [of "(c, v)" t depth rest cd]
    by (auto simp: collect_visited)
next
  case (Missing t depth p rest cd c v)
  then show ?case using collect_mono [of "(c, insert (resolve t p) v)" t depth rest cd]
    by (auto simp: collect_missing)
next
  case (Leaf t depth p rest cd c v subs)
  then show ?case
    using collect_mono [of "(c @ [resolve t p], insert (resolve t p) v)" t depth rest cd]
    by (auto simp: collect_leaf)
next
  case (Node t depth p rest cd c v subdirs)
  let ?inner = "collect_recursive t depth subdirs (Suc cd)
                  (c @ [resolve t p], insert (resolve t p) v)"
  have "resolve t p \<in> snd ?inner"
    using collect_mono [of "(c @ [resolve t p], insert (resolve t p) v)" t depth subdirs "Suc cd"]
    by auto
  then have "resolve t p \<in> snd (collect_recursive t depth rest cd ?inner)"
    using collect_mono [of ?inner t depth rest cd] by auto
  with Node show ?case by (auto simp: collect_node)
qed

lemma collect_distinct:
  "distinct (fst st) \<Longrightarrow> set (fst st) \<subseteq> snd st \<Longrightarrow>
     distinct (fst (collect_recursive t depth ps cd st))
     \<and> set (fst (collect_recursive t depth ps cd st)) \<subseteq> snd (collect_recursive t depth ps cd st)"
proof (induction t depth ps cd st rule: collect_cases)
  case (Nil t depth cd st)
  then show ?case by (simp add: collect_nil)
next
  case (Visited t depth p rest cd c v)
  then show ?case by (simp add: collect_visited)
next
  case (Missing t depth p rest cd c v)
  then show ?case by (auto simp: collect_missing)
next
  case (Leaf t depth p rest cd c v subs)
  then show ?case by (auto simp: collect_leaf)
next
  case (Node t depth p rest cd c v subdirs)
  from Node.prems Node.hyps(1)
  have "distinct (fst (c @ [resolve t p], insert (resolve t p) v))
      \<and> set (fst (c @ [resolve t p], insert (resolve t p) v))
          \<subseteq> snd (c @ [resolve t p], insert (resolve t p) v)" by auto
  with Node.IH show ?case using Node.hyps by (simp add: collect_node)
qed

lemma collect_collected:
  "set (fst (collect_recursive t depth ps cd st))
     = set (fst st) \<union> {q \<in> snd (collect_recursive t depth ps cd st) - snd st. index_exists t q}"
proof (induction t depth ps cd st rule: collect_cases)
  case (Nil t depth cd st)
  show ?case by (simp add: collect_nil)
next
  case (Visited t depth p rest cd c v)
  then show ?case by (simp add: collect_visited)
next
  case (Missing t depth p rest cd c v)
  then show ?case using collect_mono [of "(c, insert (resolve t p) v)" t depth rest cd]
    by (auto simp: collect_missing index_exists_def)
next
  case (Leaf t depth p rest cd c v subs)
  then show ?case
    using collect_mono [of "(c @ [resolve t p], insert (resolve t p) v)" t depth rest cd]
    by (auto simp: collect_leaf index_exists_def)
next
  case (Node t depth p rest cd c v subdirs)
  let ?st1 = "(c @ [resolve t p], insert (resolve t p) v)"
  let ?inner = "collect_recursive t depth subdirs (Suc cd) ?st1"
  let ?outer = "collect_recursive t depth rest cd ?inner"
  have m1: "snd ?st1 \<subseteq> snd ?inner" by (rule collect_mono)
  have m2: "snd ?inner \<subseteq> snd ?outer" by (rule collect_mono)
  have ex: "index_exists t (resolve t p)" using Node.hyps(2) by (simp add: index_exists_def)
  have "set (fst ?outer) = set (fst ?inner) \<union> {q \<in> snd ?outer - snd ?inner. index_exists t q}"
    by (rule Node.IH(2))
  also have "set (fst ?inner) = set (fst ?st1) \<union> {q \<in> snd ?inner - snd ?st1. index_exists t q}"
    by (rule Node.IH(1))
  finally have "set (fst ?outer) = set c \<union> {q \<in> snd ?outer - v. index_exists t q}"
    using m1 m2 ex Node.hyps(1) by auto
  then show ?case using Node.hyps by (simp add: collect_node)
qed

lemma collect_sound:
  assumes "\<forall>p\<in>set ps. reach t start cd (resolve t p)" and "0 \<le> depth \<longrightarrow> int cd \<le> depth"
  shows "\<forall>q\<in>snd (collect_recursive t depth ps cd st) - snd st.
           \<exists>n. (0 \<le> depth \<longrightarrow> int n \<le> depth) \<and> reach t start n q"
  using assms
proof (induction t depth ps cd st rule: collect_cases)
  case (Nil t depth cd st)
  show ?case by (simp add: collect_nil)
next
  case (Visited t depth p rest cd c v)
  then show ?case by (simp add: collect_visited)
next
  case (Missing t depth p rest cd c v)
  then show ?case by (auto simp: collect_missing)
next
  case (Leaf t depth p rest cd c v subs)
  then show ?case by (auto simp: collect_leaf)
next
  case (Node t depth p rest cd c v subdirs)
  let ?st1 = "(c @ [resolve t p], insert (resolve t p) v)"
  let ?inner = "collect_recursive t depth subdirs (Suc cd) ?st1"
  let ?outer = "collect_recursive t depth rest cd ?inner"
  have rp: "reach t start cd (resolve t p)" using Node.prems(1) by simp
  have kids: "\<forall>s\<in>set subdirs. reach t start (Suc cd) (resolve t s)"
    using reach_link [OF rp Node.hyps(2)] by blast
  have dep: "0 \<le> depth \<longrightarrow> int (Suc cd) \<le> depth" using Node.hyps(3) by auto
  have i1: "\<forall>q\<in>snd ?inner - snd ?st1.
           \<exists>n. (0 \<le> depth \<longrightarrow> int n \<le> depth) \<and> reach t start n q"
    by (rule Node.IH(1) [OF kids dep])
  have i2: "\<forall>q\<in>snd ?outer - snd ?inner.
           \<exists>n. (0 \<le> depth \<longrightarrow> int n \<le> depth) \<and> reach t start n q"
    using Node.IH(2) Node.prems by simp
  have "\<forall>q\<in>snd ?outer - v. \<exists>n. (0 \<le> depth \<longrightarrow> int n \<le> depth) \<and> reach t start n q"
  proof
    fix q assume q: "q \<in> snd ?outer - v"
    show "\<exists>n. (0 \<le> depth \<longrightarrow> int n \<le> depth) \<and> reach t start n q"
    proof (cases "q = resolve t p")
      case True
      with rp Node.prems(2) show ?thesis by blast
    next
      case False
      with q i1 i2 show ?thesis by (cases "q \<in> snd ?inner") auto
    qed
  qed
  then show ?case using Node.hyps by (simp add: collect_node)
qed

lemma collect_closed:
  assumes "depth < 0"
  shows "\<forall>q\<in>snd (collect_recursive t depth ps cd st) - snd st. \<forall>subdirs.
           map_of (indexes t) q = Some (Some subdirs) \<longrightarrow>
           resolve t ` set subdirs \<subseteq> snd (collect_recursive t depth ps cd st)"
  using assms
proof (induction t depth ps cd st rule: collect_cases)
  case (Nil t depth cd st)
  show ?case by (simp add: collect_nil)
next
  case (Visited t depth p rest cd c v)
  then show ?case by (simp add: collect_visited)
next
  case (Missing t depth p rest cd c v)
  let ?r = "collect_recursive t depth rest cd (c, insert (resolve t p) v)"
  note ih = Missing.IH [OF Missing.prems]
  have "\<forall>q\<in>snd ?r - v. \<forall>sd. map_of (indexes t) q = Some (Some sd) \<longrightarrow>
           resolve t ` set sd \<subseteq> snd ?r"
  proof (intro ballI allI impI)
    fix q sd assume q: "q \<in> snd ?r - v" and sd: "map_of (indexes t) q = Some (Some sd)"
    from sd Missing.hyps(2) have "q \<noteq> resolve t p" by auto
    with q have "q \<in> snd ?r - snd (c, insert (resolve t p) v)" by auto
    with ih sd show "resolve t ` set sd \<subseteq> snd ?r" by blast
  qed
  then show ?case using Missing.hyps by (simp add: collect_missing)
next
  case (Leaf t depth p rest cd c v subs)
  let ?r = "collect_recursive t depth rest cd (c @ [resolve t p], insert (resolve t p) v)"
  note ih = Leaf.IH [OF Leaf.prems]
  from Leaf.hyps(3) Leaf.prems have none: "subs = None" by auto
  have "\<forall>q\<in>snd ?r - v. \<forall>sd. map_of (indexes t) q = Some (Some sd) \<longrightarrow>
           resolve t ` set sd \<subseteq> snd ?r"
  proof (intro ballI allI impI)
    fix q sd assume q: "q \<in> snd ?r - v" and sd: "map_of (indexes t) q = Some (Some sd)"
    from sd Leaf.hyps(2) none have "q \<noteq> resolve t p" by auto
    with q have "q \<in> snd ?r - snd (c @ [resolve t p], insert (resolve t p) v)" by auto
    with ih sd show "resolve t ` set sd \<subseteq> snd ?r" by blast
  qed
  then show ?case using Leaf.hyps by (simp add: collect_leaf)
next
  case (Node t depth p rest cd c v subdirs)
  let ?st1 = "(c @ [resolve t p], insert (resolve t p) v)"
  let ?inner = "collect_recursive t depth subdirs (Suc cd) ?st1"
  let ?outer = "collect_recursive t depth rest cd ?inner"
  have m2: "snd ?inner \<subseteq> snd ?outer" by (rule collect_mono)
  have cov: "resolve t ` set subdirs \<subseteq> snd ?inner" by (rule collect_covers)
  note i1 = Node.IH(1) [OF Node.prems]
  note i2 = Node.IH(2) [OF Node.prems]
  have "\<forall>q\<in>snd ?outer - v. \<forall>sd. map_of (indexes t) q = Some (Some sd) \<longrightarrow>
           resolve t ` set sd \<subseteq> snd ?outer"
  proof (intro ballI allI impI)
    fix q sd assume q: "q \<in> snd ?outer - v" and sd: "map_of (indexes t) q = Some (Some sd)"
    show "resolve t ` set sd \<subseteq> snd ?outer"
    proof (cases "q = resolve t p")
      case True
      with sd Node.hyps(2) have "sd = subdirs" by simp
      with cov m2 show ?thesis by blast
    next
      case False
      show ?thesis
      proof (cases "q \<in> snd ?inner")
        case True
        with False q have "q \<in> snd ?inner - snd ?st1" by auto
        with i1 sd have "resolve t ` set sd \<subseteq> snd ?inner" by blast
        with m2 show ?thesis by blast
      next
        case False
        with q have "q \<in> snd ?outer - snd ?inner" by auto
        with i2 sd show ?thesis by blast
      qed
    qed
  qed
  then show ?case using Node.hyps by (simp add: collect_node)
qed

lemma reach_visited:
  assumes "depth < 0" and "reach t start n p"
  shows "p \<in> snd (collect_recursive t depth [start] 0 ([], {}))"
  using assms(2)
proof (induction rule: reach.induct)
  case reach_start
  show ?case using collect_covers [of t "[start]" depth 0 "([], {})"] by simp
next
  case (reach_link n p subdirs s)
  with collect_closed [OF assms(1), of t "[start]" 0 "([], {})"]
  show ?case by auto
qed


lemma collect_index_paths_depth_zero:
  "collect_index_paths t start 0
     = (if index_exists t (resolve t start) then [resolve t start] else [])"
proof (cases "map_of (indexes t) (resolve t start)")
  case None
  then show ?thesis
    by (simp add: collect_index_paths_def collect_missing collect_nil index_exists_def)
next
  case (Some subs)
  then show ?thesis
    by (simp add: collect_index_paths_def collect_leaf collect_nil index_exists_def)
qed

text \<open>
  Claim C8. The collector never collects a resolved path twice; every path it collects is
  an existing index some \<open>n\<close> links away from the start, with \<open>n \<le> depth\<close> when
  \<open>depth \<ge> 0\<close>; with \<open>depth = 0\<close> it collects the start index alone; with
  \<open>depth = -1\<close> it collects every existing index reachable from the start, however far.
\<close>

theorem collect_index_paths_depth_and_cycles:
  "distinct (collect_index_paths t start depth)
   \<and> (\<forall>p\<in>set (collect_index_paths t start depth).
         index_exists t p \<and> (\<exists>n. (0 \<le> depth \<longrightarrow> int n \<le> depth) \<and> reach t start n p))
   \<and> collect_index_paths t start 0
       = (if index_exists t (resolve t start) then [resolve t start] else [])
   \<and> set (collect_index_paths t start (- 1))
       = {p. index_exists t p \<and> (\<exists>n. reach t start n p)}"
proof -
  let ?r = "\<lambda>d. collect_recursive t d [start] 0 ([], {})"
  have 1: "distinct (collect_index_paths t start depth)"
    using collect_distinct [of "([], {})" t depth "[start]" 0]
    by (simp add: collect_index_paths_def)
  have col: "\<And>d. set (fst (?r d)) = {q \<in> snd (?r d). index_exists t q}"
    using collect_collected [of t _ "[start]" 0 "([], {})"] by simp
  have snd_sound: "\<And>d. \<forall>q\<in>snd (?r d). \<exists>n. (0 \<le> d \<longrightarrow> int n \<le> d) \<and> reach t start n q"
  proof -
    fix d
    have "\<forall>p\<in>set [start]. reach t start 0 (resolve t p)" by (simp add: reach_start)
    from collect_sound [OF this, of d "([], {})"]
    show "\<forall>q\<in>snd (?r d). \<exists>n. (0 \<le> d \<longrightarrow> int n \<le> d) \<and> reach t start n q" by simp
  qed
  have 2: "\<forall>p\<in>set (collect_index_paths t start depth).
         index_exists t p \<and> (\<exists>n. (0 \<le> depth \<longrightarrow> int n \<le> depth) \<and> reach t start n p)"
    using col [of depth] snd_sound [of depth] by (auto simp: collect_index_paths_def)
  have 3: "collect_index_paths t start 0
       = (if index_exists t (resolve t start) then [resolve t start] else [])"
    by (rule collect_index_paths_depth_zero)
  have 4: "set (collect_index_paths t start (- 1))
       = {p. index_exists t p \<and> (\<exists>n. reach t start n p)}"
  proof
    show "set (collect_index_paths t start (- 1))
       \<subseteq> {p. index_exists t p \<and> (\<exists>n. reach t start n p)}"
      using col [of "- 1"] snd_sound [of "- 1"] by (auto simp: collect_index_paths_def)
  next
    show "{p. index_exists t p \<and> (\<exists>n. reach t start n p)}
       \<subseteq> set (collect_index_paths t start (- 1))"
    proof
      fix p assume "p \<in> {p. index_exists t p \<and> (\<exists>n. reach t start n p)}"
      then obtain n where e: "index_exists t p" and r: "reach t start n p" by auto
      have "p \<in> snd (?r (- 1))" by (rule reach_visited [OF _ r]) simp
      with e col [of "- 1"] show "p \<in> set (collect_index_paths t start (- 1))"
        by (simp add: collect_index_paths_def)
    qed
  qed
  from 1 2 3 4 show ?thesis by blast
qed

theorem collect_index_paths_depth_and_cycles_witness:
  "collect_index_paths
     \<lparr>resolve = (\<lambda>p. if p = ''./a'' then ''a'' else p),
      indexes = [(''r'', Some [''a'', ''b'', ''ghost'']), (''a'', Some [''c'', ''r'']),
                 (''b'', None), (''c'', Some [''./a'', ''d'']), (''d'', Some [])]\<rparr> ''r'' 1
     = [''r'', ''a'', ''b'']
   \<and> collect_index_paths
     \<lparr>resolve = (\<lambda>p. if p = ''./a'' then ''a'' else p),
      indexes = [(''r'', Some [''a'', ''b'', ''ghost'']), (''a'', Some [''c'', ''r'']),
                 (''b'', None), (''c'', Some [''./a'', ''d'']), (''d'', Some [])]\<rparr> ''r'' (- 1)
     = [''r'', ''a'', ''c'', ''d'', ''b'']
   \<and> collect_index_paths
     \<lparr>resolve = (\<lambda>p. if p = ''./a'' then ''a'' else p),
      indexes = [(''r'', Some [''a'', ''b'', ''ghost'']), (''a'', Some [''c'', ''r'']),
                 (''b'', None), (''c'', Some [''./a'', ''d'']), (''d'', Some [])]\<rparr> ''r'' 0
     = [''r'']
   \<and> distinct (collect_index_paths
     \<lparr>resolve = (\<lambda>p. if p = ''./a'' then ''a'' else p),
      indexes = [(''r'', Some [''a'', ''b'', ''ghost'']), (''a'', Some [''c'', ''r'']),
                 (''b'', None), (''c'', Some [''./a'', ''d'']), (''d'', Some [])]\<rparr> ''r'' 1)"
proof -
  let ?t = "\<lparr>resolve = (\<lambda>p. if p = ''./a'' then ''a'' else p),
      indexes = [(''r'', Some [''a'', ''b'', ''ghost'']), (''a'', Some [''c'', ''r'']),
                 (''b'', None), (''c'', Some [''./a'', ''d'']), (''d'', Some [])]\<rparr>"
  have a: "collect_index_paths ?t ''r'' 1 = [''r'', ''a'', ''b'']"
    by (simp add: collect_index_paths_def collect_recursive.simps Let_def)
  have b: "collect_index_paths ?t ''r'' (- 1) = [''r'', ''a'', ''c'', ''d'', ''b'']"
    by (simp add: collect_index_paths_def collect_recursive.simps Let_def)
  have c: "collect_index_paths ?t ''r'' 0 = [''r'']"
    by (simp add: collect_index_paths_def collect_recursive.simps Let_def)
  have d: "distinct (collect_index_paths ?t ''r'' 1)"
    using collect_index_paths_depth_and_cycles [of ?t "''r''" 1] by blast
  from a b c d show ?thesis by blast
qed

subsection \<open>Binary cascade: fallbacks\<close>



























subsection \<open>Fusion kernel\<close>

lemma fadd_zero [simp]: "fadd (Fin 0) c = c"
  by (cases c) auto

lemma acc_add_keys:
  "map fst (acc_add p c acc) = (if p \<in> set (map fst acc) then map fst acc else map fst acc @ [p])"
  by (induction p c acc rule: acc_add.induct) auto

lemma acc_add_val:
  "val (acc_add p c acc) q = (if q = p then fadd (val acc p) c else val acc q)"
  by (induction p c acc rule: acc_add.induct) (auto simp: val_def)

lemma acc_add_keyset: "fst ` set (acc_add p c acc) = insert p (fst ` set acc)"
  by (induction p c acc rule: acc_add.induct) auto

lemma add_ranked_keys:
  "fst ` set (add_ranked w k r xs acc) = fst ` set acc \<union> path ` set xs"
  by (induction w k r xs acc rule: add_ranked.induct) (auto simp: acc_add_keyset)

lemma add_ranked_distinct:
  "distinct (map fst acc) \<Longrightarrow> distinct (map fst (add_ranked w k r xs acc))"
  by (induction w k r xs acc rule: add_ranked.induct) (auto simp: acc_add_keys)

lemma add_ranked_val:
  "distinct (map path xs) \<Longrightarrow>
   val (add_ranked w k r xs acc) q =
     (if q \<in> path ` set xs
      then fadd (val acc q)
             (fdiv w (real (k + r + length (takeWhile (\<lambda>x. path x \<noteq> q) xs))))
      else val acc q)"
proof (induction w k r xs acc rule: add_ranked.induct)
  case (1 w k r acc)
  show ?case by simp
next
  case (2 w k r x xs acc)
  then show ?case by (auto simp: acc_add_val algebra_simps)
qed

lemma first_by_path_paths:
  "path ` set (first_by_path rs seen) = path ` set rs - set seen"
  by (induction rs seen rule: first_by_path.induct) auto

lemma first_by_path_distinct: "distinct (map path (first_by_path rs seen))"
  by (induction rs seen rule: first_by_path.induct) (auto simp: first_by_path_paths)

lemma first_by_path_index:
  "q \<notin> set seen \<Longrightarrow> q \<in> path ` set rs \<Longrightarrow>
   length (takeWhile (\<lambda>x. path x \<noteq> q) (first_by_path rs seen))
     = card (path ` set (takeWhile (\<lambda>x. path x \<noteq> q) rs) - set seen)"
proof (induction rs seen rule: first_by_path.induct)
  case (1 seen)
  then show ?case by simp
next
  case (2 r rs seen)
  show ?case
  proof (cases "path r \<in> set seen")
    case True
    with 2 have ne: "path r \<noteq> q" by auto
    with 2 True have "q \<in> path ` set rs" by auto
    with 2 True have ih: "length (takeWhile (\<lambda>x. path x \<noteq> q) (first_by_path rs seen))
     = card (path ` set (takeWhile (\<lambda>x. path x \<noteq> q) rs) - set seen)" by simp
    have "insert (path r) (path ` set (takeWhile (\<lambda>x. path x \<noteq> q) rs)) - set seen
        = path ` set (takeWhile (\<lambda>x. path x \<noteq> q) rs) - set seen"
      using True by auto
    with ih True ne show ?thesis by simp
  next
    case False
    show ?thesis
    proof (cases "path r = q")
      case True
      with False show ?thesis by simp
    next
      case ne: False
      with 2 have qin: "q \<in> path ` set rs" by auto
      from ne 2 have "q \<notin> set (path r # seen)" by auto
      from 2(2) [OF False this qin]
      have ih: "length (takeWhile (\<lambda>x. path x \<noteq> q) (first_by_path rs (path r # seen)))
        = card (path ` set (takeWhile (\<lambda>x. path x \<noteq> q) rs) - set (path r # seen))" .
      let ?A = "path ` set (takeWhile (\<lambda>x. path x \<noteq> q) rs)"
      have e: "insert (path r) ?A - set seen = insert (path r) (?A - set (path r # seen))"
        using False by auto
      have "path r \<notin> ?A - set (path r # seen)" by auto
      moreover have "finite (?A - set (path r # seen))" by simp
      ultimately have "card (insert (path r) (?A - set (path r # seen)))
          = Suc (card (?A - set (path r # seen)))"
        by (rule card_insert_disjoint [rotated])
      with e have "card (insert (path r) ?A - set seen)
          = Suc (card (?A - set (path r # seen)))" by simp
      with ih False ne show ?thesis by simp
    qed
  qed
qed

lemma rrf_formula_contrib:
  "rrf_formula rm w k p = (\<Sum>src\<leftarrow>rm. contrib (w (fst src)) k p (snd src))"
  by (simp add: rrf_formula_def contrib_def)

lemma add_source_val:
  assumes "map_of ws (fst src) = Some (Fin x)" and "val acc q = Fin a"
  shows "val (add_source ws k acc src) q = Fin (a + contrib x k q (snd src))"
proof (cases "x = 0")
  case True
  with assms show ?thesis
    by (simp add: add_source_def contrib_def split: option.splits)
next
  case False
  let ?ys = "first_by_path (snd src) []"
  have d: "distinct (map path ?ys)" by (rule first_by_path_distinct)
  have p: "path ` set ?ys = path ` set (snd src)" by (simp add: first_by_path_paths)
  show ?thesis
  proof (cases "q \<in> path ` set (snd src)")
    case True
    have "length (takeWhile (\<lambda>x. path x \<noteq> q) ?ys)
        = card (path ` set (takeWhile (\<lambda>x. path x \<noteq> q) (snd src)))"
      using first_by_path_index [of q "[]" "snd src"] True by simp
    with True assms False d p show ?thesis
      by (simp add: add_source_def add_ranked_val contrib_def rank_in_def algebra_simps)
  next
    case nin: False
    with assms False d p show ?thesis
      by (simp add: add_source_def add_ranked_val contrib_def rank_in_def)
  qed
qed

lemma add_source_keys:
  assumes "map_of ws (fst src) = Some (Fin x)"
  shows "fst ` set (add_source ws k acc src)
     = fst ` set acc \<union> (if x = 0 then {} else path ` set (snd src))"
  using assms by (simp add: add_source_def add_ranked_keys first_by_path_paths)

lemma add_source_distinct:
  "distinct (map fst acc) \<Longrightarrow> distinct (map fst (add_source ws k acc src))"
  by (simp add: add_source_def add_ranked_distinct split: option.splits)

lemma fold_sources_val:
  assumes "\<forall>src\<in>set rm. \<exists>x. map_of ws (fst src) = Some (Fin x)"
    and "\<forall>q. \<exists>a. val acc q = Fin a"
  shows "val (foldl (add_source ws k) acc rm) q
     = Fin (the_fin (val acc q) + (\<Sum>src\<leftarrow>rm. contrib (weight_of ws (fst src)) k q (snd src)))"
  using assms
proof (induction rm arbitrary: acc)
  case Nil
  then obtain a where "val acc q = Fin a" by blast
  then show ?case by simp
next
  case (Cons src rm)
  from Cons.prems(1) obtain x where x: "map_of ws (fst src) = Some (Fin x)" by auto
  then have wx: "weight_of ws (fst src) = x" by (simp add: weight_of_def)
  have fin: "\<forall>q. \<exists>a. val (add_source ws k acc src) q = Fin a"
  proof
    fix q' from Cons.prems(2) obtain a' where "val acc q' = Fin a'" by blast
    from add_source_val [OF x this] show "\<exists>a. val (add_source ws k acc src) q' = Fin a" by blast
  qed
  from Cons.prems(2) obtain a where a: "val acc q = Fin a" by blast
  have "val (foldl (add_source ws k) (add_source ws k acc src) rm) q
     = Fin (the_fin (val (add_source ws k acc src) q)
         + (\<Sum>s\<leftarrow>rm. contrib (weight_of ws (fst s)) k q (snd s)))"
    using Cons.IH [OF _ fin] Cons.prems(1) by simp
  then show ?case using add_source_val [OF x a] a wx by simp
qed

lemma fold_sources_keys:
  assumes "\<forall>src\<in>set rm. \<exists>x. map_of ws (fst src) = Some (Fin x)"
  shows "fst ` set (foldl (add_source ws k) acc rm)
     = fst ` set acc
       \<union> {p. \<exists>src\<in>set rm. weight_of ws (fst src) \<noteq> 0 \<and> p \<in> path ` set (snd src)}"
  using assms
proof (induction rm arbitrary: acc)
  case Nil
  show ?case by simp
next
  case (Cons src rm)
  from Cons.prems obtain x where x: "map_of ws (fst src) = Some (Fin x)" by auto
  then have wx: "weight_of ws (fst src) = x" by (simp add: weight_of_def)
  have "fst ` set (foldl (add_source ws k) (add_source ws k acc src) rm)
     = fst ` set (add_source ws k acc src)
       \<union> {p. \<exists>s\<in>set rm. weight_of ws (fst s) \<noteq> 0 \<and> p \<in> path ` set (snd s)}"
    using Cons.IH Cons.prems by simp
  then show ?case using add_source_keys [OF x, of k acc] wx by auto
qed

lemma fold_sources_distinct:
  "distinct (map fst acc) \<Longrightarrow> distinct (map fst (foldl (add_source ws k) acc rm))"
  by (induction rm arbitrary: acc) (simp_all add: add_source_distinct)

lemma val_of_member:
  "distinct (map fst acc) \<Longrightarrow> (p, s) \<in> set acc \<Longrightarrow> val acc p = s"
  by (simp add: val_def)

lemma rrf_scores_entries:
  assumes "\<forall>src\<in>set rm. \<exists>x. map_of ws (fst src) = Some (Fin x)"
    and "(p, s) \<in> set (rrf_scores rm ws k)"
  shows "s = Fin (rrf_formula rm (weight_of ws) k p)"
proof -
  have d: "distinct (map fst (rrf_scores rm ws k))"
    unfolding rrf_scores_def by (rule fold_sources_distinct) simp
  have z: "\<forall>q. \<exists>a. val [] q = Fin a" by (simp add: val_def)
  from fold_sources_val [OF assms(1) z, of k p]
  have "val (rrf_scores rm ws k) p = Fin (rrf_formula rm (weight_of ws) k p)"
    by (simp add: rrf_scores_def rrf_formula_contrib val_def)
  with val_of_member [OF d assms(2)] show ?thesis by simp
qed

lemma insert_desc_set: "set (insert_desc x ys) = insert x (set ys)"
  by (induction ys) auto

lemma sort_desc_set: "set (sort_desc xs) = set xs"
  by (induction xs) (auto simp: sort_desc_def insert_desc_set)

lemma insert_desc_distinct:
  "distinct (map fst (insert_desc x ys)) \<longleftrightarrow> fst x \<notin> fst ` set ys \<and> distinct (map fst ys)"
  by (induction ys) (auto simp: insert_desc_set)

lemma sort_desc_distinct: "distinct (map fst (sort_desc xs)) \<longleftrightarrow> distinct (map fst xs)"
  by (induction xs) (auto simp: sort_desc_def insert_desc_distinct sort_desc_set [unfolded sort_desc_def])

lemma fgt_fin: "is_finite a \<Longrightarrow> is_finite b \<Longrightarrow> fgt a b \<longleftrightarrow> the_fin a > the_fin b"
  by (cases a; cases b) auto

lemma insert_desc_sorted:
  assumes "is_finite (snd x)" and "\<forall>y\<in>set ys. is_finite (snd y)"
    and "sorted_wrt (\<lambda>a b. the_fin (snd b) \<le> the_fin (snd a)) ys"
  shows "sorted_wrt (\<lambda>a b. the_fin (snd b) \<le> the_fin (snd a)) (insert_desc x ys)"
  using assms
proof (induction ys)
  case Nil
  then show ?case by simp
next
  case (Cons y ys)
  then show ?case by (auto simp: insert_desc_set fgt_fin)
qed

lemma sort_desc_sorted:
  assumes "\<forall>y\<in>set xs. is_finite (snd y)"
  shows "sorted_wrt (\<lambda>a b. the_fin (snd b) \<le> the_fin (snd a)) (sort_desc xs)"
  using assms
proof (induction xs)
  case Nil
  show ?case by (simp add: sort_desc_def)
next
  case (Cons x xs)
  then have "sorted_wrt (\<lambda>a b. the_fin (snd b) \<le> the_fin (snd a)) (sort_desc xs)" by simp
  moreover have "\<forall>y\<in>set (sort_desc xs). is_finite (snd y)"
    using Cons.prems by (simp add: sort_desc_set)
  ultimately have "sorted_wrt (\<lambda>a b. the_fin (snd b) \<le> the_fin (snd a))
      (insert_desc x (sort_desc xs))"
    using Cons.prems by (intro insert_desc_sorted) auto
  then show ?case by (simp add: sort_desc_def)
qed

lemma fadd_not_finite_left: "\<not> is_finite a \<Longrightarrow> \<not> is_finite (fadd a b)"
  by (cases a; cases b) auto

lemma fadd_not_finite_right: "\<not> is_finite b \<Longrightarrow> \<not> is_finite (fadd a b)"
  by (cases a; cases b) auto

lemma foldl_fadd_not_finite: "\<not> is_finite a \<Longrightarrow> \<not> is_finite (foldl fadd a xs)"
  by (induction xs arbitrary: a) (simp_all add: fadd_not_finite_left)

lemma foldl_fadd_finite_all:
  "is_finite (foldl fadd a xs) \<Longrightarrow> \<forall>x\<in>set xs. is_finite x"
proof (induction xs arbitrary: a)
  case Nil
  show ?case by simp
next
  case (Cons x xs)
  have "is_finite x"
  proof (rule ccontr)
    assume "\<not> is_finite x"
    then have "\<not> is_finite (fadd a x)" by (rule fadd_not_finite_right)
    then have "\<not> is_finite (foldl fadd (fadd a x) xs)" by (rule foldl_fadd_not_finite)
    with Cons.prems show False by simp
  qed
  moreover from Cons have "\<forall>y\<in>set xs. is_finite y" by simp
  ultimately show ?case by simp
qed

lemma is_finite_iff: "is_finite x \<longleftrightarrow> (\<exists>a. x = Fin a)"
  by (cases x) auto

lemma foldl_fadd_fin:
  "\<forall>x\<in>set xs. is_finite x \<Longrightarrow> foldl fadd (Fin a) xs = Fin (a + sum_list (map the_fin xs))"
proof (induction xs arbitrary: a)
  case Nil
  show ?case by simp
next
  case (Cons x xs)
  then obtain b where "x = Fin b" by (auto simp: is_finite_iff)
  with Cons show ?case by (simp add: add.assoc)
qed

lemma sum_list_divide: "sum_list (map (\<lambda>x. f x / t) xs) = sum_list (map f xs) / (t::real)"
  by (induction xs) (simp_all add: add_divide_distrib)

lemma weights_total_finite:
  assumes "weights_total ws = Fin t"
  shows "\<forall>x\<in>set ws. is_finite (snd x)" and "t = sum_list (map (\<lambda>x. the_fin (snd x)) ws)"
proof -
  from assms have "is_finite (foldl fadd (Fin 0) (map snd ws))"
    by (simp add: weights_total_def)
  from foldl_fadd_finite_all [OF this] show f: "\<forall>x\<in>set ws. is_finite (snd x)" by simp
  then have "\<forall>x\<in>set (map snd ws). is_finite x" by simp
  from foldl_fadd_fin [OF this, of 0] assms
  show "t = sum_list (map (\<lambda>x. the_fin (snd x)) ws)"
    by (simp add: weights_total_def comp_def)
qed

lemma normalized_total:
  assumes "weights_total ws = Fin t" and "0 < t"
  shows "weights_total (map (\<lambda>(s, w). (s, fdiv w t)) ws) = Fin 1"
proof -
  note f = weights_total_finite [OF assms(1)]
  have m: "map snd (map (\<lambda>(s, w). (s, fdiv w t)) ws) = map (\<lambda>x. Fin (the_fin (snd x) / t)) ws"
    using f(1) by (auto simp: is_finite_iff)
  have "\<forall>x\<in>set (map (\<lambda>x. Fin (the_fin (snd x) / t)) ws). is_finite x" by simp
  from foldl_fadd_fin [OF this, of 0]
  have "foldl fadd (Fin 0) (map (\<lambda>x. Fin (the_fin (snd x) / t)) ws)
      = Fin (sum_list (map (\<lambda>x. the_fin (snd x) / t) ws))"
    by (simp add: comp_def)
  then have "weights_total (map (\<lambda>(s, w). (s, fdiv w t)) ws)
      = Fin (sum_list (map (\<lambda>x. the_fin (snd x) / t) ws))"
    by (simp only: weights_total_def m)
  also have "sum_list (map (\<lambda>x. the_fin (snd x) / t) ws) = t / t"
    using f(2) by (simp add: sum_list_divide)
  finally show ?thesis using assms(2) by simp
qed

text \<open>
  Claim C3. A weights mapping whose total is NaN, infinite, zero or negative comes back from
  weight normalization unchanged, and fusion then runs with exactly those weights; a mapping
  with a finite, strictly positive total has every weight divided by the total (the keys and
  their order kept), all its weights are finite, and the normalized weights sum to 1.
\<close>
theorem normalize_weights_total_cases:
  "(weights_total ws = NaN \<or> weights_total ws = PInf \<or> weights_total ws = NInf
      \<or> (weights_total ws = Fin t \<and> t \<le> 0) \<longrightarrow>
        normalize_weights ws = ws
        \<and> fuse rm ws k = reciprocal_rank_fusion rm ws k)
   \<and> (weights_total ws = Fin t \<and> 0 < t \<longrightarrow>
        normalize_weights ws = map (\<lambda>(s, w). (s, fdiv w t)) ws
        \<and> map fst (normalize_weights ws) = map fst ws
        \<and> (\<forall>x\<in>set ws. is_finite (snd x))
        \<and> normalize_weights ws = map (\<lambda>x. (fst x, Fin (the_fin (snd x) / t))) ws
        \<and> weights_total (normalize_weights ws) = Fin 1)"
proof (intro conjI impI)
  assume a: "weights_total ws = NaN \<or> weights_total ws = PInf \<or> weights_total ws = NInf
      \<or> (weights_total ws = Fin t \<and> t \<le> 0)"
  then show n: "normalize_weights ws = ws"
    by (auto simp: normalize_weights_def)
  then show "fuse rm ws k = reciprocal_rank_fusion rm ws k"
    by (simp add: fuse_def)
next
  assume a: "weights_total ws = Fin t \<and> 0 < t"
  then show n: "normalize_weights ws = map (\<lambda>(s, w). (s, fdiv w t)) ws"
    by (simp add: normalize_weights_def)
  show k: "map fst (normalize_weights ws) = map fst ws"
    by (simp add: n comp_def case_prod_beta)
  have ks: "fst ` set (normalize_weights ws) = fst ` set ws"
    using k by (metis list.set_map)
  from a weights_total_finite(1) [of ws t]
  have f: "\<forall>x\<in>set ws. is_finite (snd x)" by simp
  show "\<forall>x\<in>set ws. is_finite (snd x)" by (rule f)
  show "normalize_weights ws = map (\<lambda>x. (fst x, Fin (the_fin (snd x) / t))) ws"
    using f by (auto simp: n is_finite_iff)
  from a show "weights_total (normalize_weights ws) = Fin 1"
    by (simp add: n normalized_total)
qed

lemma rank_in_first:
  "rank_in p (x # xs) = Some r \<Longrightarrow> (r = 1 \<longleftrightarrow> p = path x)"
proof (cases "p = path x")
  case True
  assume "rank_in p (x # xs) = Some r"
  with True show ?thesis by (simp add: rank_in_def)
next
  case False
  assume r: "rank_in p (x # xs) = Some r"
  let ?A = "path ` set (takeWhile (\<lambda>y. path y \<noteq> p) xs)"
  have "finite (insert (path x) ?A)" by simp
  then have "card (insert (path x) ?A) \<noteq> 0" by (simp only: card_eq_0_iff) simp
  with r False show ?thesis by (auto simp: rank_in_def split: if_splits)
qed

lemma rank_in_pos: "rank_in p rs = Some r \<Longrightarrow> 1 \<le> r"
  by (auto simp: rank_in_def split: if_splits)

lemma rrf_general:
  assumes "\<forall>src\<in>set rm. \<exists>x. map_of ws (fst src) = Some (Fin x)"
  shows "\<forall>e\<in>set (reciprocal_rank_fusion rm ws k).
           snd e = Fin (rrf_formula rm (weight_of ws) k (fst e))"
    and "fst ` set (reciprocal_rank_fusion rm ws k)
           = {p. \<exists>src\<in>set rm. weight_of ws (fst src) \<noteq> 0 \<and> p \<in> path ` set (snd src)}"
    and "distinct (map fst (reciprocal_rank_fusion rm ws k))"
    and "sorted_wrt (\<lambda>a b. the_fin (snd b) \<le> the_fin (snd a)) (reciprocal_rank_fusion rm ws k)"
proof -
  show e: "\<forall>e\<in>set (reciprocal_rank_fusion rm ws k).
           snd e = Fin (rrf_formula rm (weight_of ws) k (fst e))"
  proof
    fix e assume "e \<in> set (reciprocal_rank_fusion rm ws k)"
    then have "(fst e, snd e) \<in> set (rrf_scores rm ws k)"
      by (simp add: reciprocal_rank_fusion_def sort_desc_set)
    from rrf_scores_entries [OF assms this]
    show "snd e = Fin (rrf_formula rm (weight_of ws) k (fst e))" .
  qed
  show "fst ` set (reciprocal_rank_fusion rm ws k)
           = {p. \<exists>src\<in>set rm. weight_of ws (fst src) \<noteq> 0 \<and> p \<in> path ` set (snd src)}"
    using fold_sources_keys [OF assms, of k "[]"]
    by (simp add: reciprocal_rank_fusion_def sort_desc_set rrf_scores_def)
  show "distinct (map fst (reciprocal_rank_fusion rm ws k))"
    using fold_sources_distinct [of "[]" ws k rm]
    by (simp add: reciprocal_rank_fusion_def sort_desc_distinct rrf_scores_def)
  have "\<forall>y\<in>set (rrf_scores rm ws k). is_finite (snd y)"
    using e by (auto simp: reciprocal_rank_fusion_def sort_desc_set is_finite_iff)
  then show "sorted_wrt (\<lambda>a b. the_fin (snd b) \<le> the_fin (snd a))
      (reciprocal_rank_fusion rm ws k)"
    unfolding reciprocal_rank_fusion_def by (rule sort_desc_sorted)
qed

lemma rrf_single_source:
  fixes w :: real
  shows "w \<noteq> 0 \<Longrightarrow> (path x, Fin (w / real (k + 1)))
           \<in> set (reciprocal_rank_fusion [(s, x # xs)] [(s, Fin w)] k)"
    and "0 < w \<Longrightarrow> hd (reciprocal_rank_fusion [(s, x # xs)] [(s, Fin w)] k)
           = (path x, Fin (w / real (k + 1)))"
proof -
  let ?rm = "[(s, x # xs)]" and ?ws = "[(s, Fin w)]"
  let ?out = "reciprocal_rank_fusion [(s, x # xs)] [(s, Fin w)] k"
  have fw: "\<forall>src\<in>set ?rm. \<exists>y. map_of ?ws (fst src) = Some (Fin y)" by simp
  note g = rrf_general [OF fw, of k]
  have wt: "weight_of ?ws s = w" by (simp add: weight_of_def)
  have form: "\<And>p. rrf_formula ?rm (weight_of ?ws) k p = contrib w k p (x # xs)"
    by (simp add: rrf_formula_contrib wt)
  have first: "contrib w k (path x) (x # xs) = w / real (k + 1)"
    by (simp add: contrib_def rank_in_def)
  show mem: "(path x, Fin (w / real (k + 1))) \<in> set ?out" if "w \<noteq> 0"
  proof -
    from that g(2) wt have "path x \<in> fst ` set ?out" by simp
    then obtain e where e: "e \<in> set ?out" and "fst e = path x" by auto
    with g(1) form first have "snd e = Fin (w / real (k + 1))" by simp
    with e \<open>fst e = path x\<close> show ?thesis by (metis prod.collapse)
  qed
  show "hd ?out = (path x, Fin (w / real (k + 1)))" if pos: "0 < w"
  proof -
    from pos have m: "(path x, Fin (w / real (k + 1))) \<in> set ?out"
      by (intro mem) simp
    then obtain h t where ht: "?out = h # t" by (cases ?out) auto
    have hin: "h \<in> set ?out" by (simp add: ht)
    then have "fst h \<in> fst ` set ?out" by (rule imageI)
    also have "fst ` set ?out = path ` set (x # xs)"
      using g(2) wt pos by auto
    finally have fh: "fst h \<in> path ` set (x # xs)" .
    define r where "r = Suc (card (path ` set (takeWhile (\<lambda>y. path y \<noteq> fst h) (x # xs))))"
    from fh have r: "rank_in (fst h) (x # xs) = Some r"
      by (simp only: rank_in_def if_True r_def)
    with g(1) hin form have sh: "snd h = Fin (w / real (k + r))" by (simp add: contrib_def)
    have r1: "1 \<le> r" using r by (rule rank_in_pos)
    have "the_fin (Fin (w / real (k + 1))) \<le> the_fin (snd h)"
    proof (cases "h = (path x, Fin (w / real (k + 1)))")
      case True
      then show ?thesis by simp
    next
      case False
      with m ht have "(path x, Fin (w / real (k + 1))) \<in> set t" by auto
      with g(4) ht show ?thesis by auto
    qed
    with sh have le: "w / real (k + 1) \<le> w / real (k + r)" by simp
    have "r \<le> 1"
    proof (rule ccontr)
      assume "\<not> r \<le> 1"
      then have "real (k + 1) < real (k + r)" by simp
      with pos have "w / real (k + r) < w / real (k + 1)"
        by (intro divide_strict_left_mono) auto
      with le show False by simp
    qed
    with r1 have "r = 1" by simp
    with rank_in_first [OF r] have "fst h = path x" by simp
    with sh \<open>r = 1\<close> have "h = (path x, Fin (w / real (k + 1)))" by (metis prod.collapse)
    with ht show ?thesis by simp
  qed
qed

text \<open>
  Claim C2. When every source of the results map has a finite weight, reciprocal-rank fusion
  gives each path it returns the score \<open>\<Sum>\<^sub>s w\<^sub>s / (k + r)\<close>, \<open>r\<close> the 1-based rank of the path in source
  \<open>s\<close>; the paths returned are those of the sources with a non-zero weight, each once, in
  descending order of score. Fusing a single source \<open>{s: [x, ...]}\<close> with weight \<open>w \<noteq> 0\<close> gives
  the path of \<open>x\<close> the score \<open>w / (k + 1)\<close>, and for \<open>w > 0\<close> that entry comes first.
\<close>
theorem reciprocal_rank_fusion_scores:
  "((\<forall>src\<in>set rm. \<exists>x. map_of ws (fst src) = Some (Fin x)) \<longrightarrow>
      (\<forall>e\<in>set (reciprocal_rank_fusion rm ws k).
          snd e = Fin (rrf_formula rm (weight_of ws) k (fst e)))
      \<and> fst ` set (reciprocal_rank_fusion rm ws k)
          = {p. \<exists>src\<in>set rm. weight_of ws (fst src) \<noteq> 0 \<and> p \<in> path ` set (snd src)}
      \<and> distinct (map fst (reciprocal_rank_fusion rm ws k))
      \<and> sorted_wrt (\<lambda>a b. the_fin (snd b) \<le> the_fin (snd a))
            (reciprocal_rank_fusion rm ws k))
   \<and> (w \<noteq> 0 \<longrightarrow>
        (path x, Fin (w / real (k + 1)))
          \<in> set (reciprocal_rank_fusion [(s, x # xs)] [(s, Fin w)] k))
   \<and> (0 < w \<longrightarrow>
        hd (reciprocal_rank_fusion [(s, x # xs)] [(s, Fin w)] k)
          = (path x, Fin (w / real (k + 1))))"
  using rrf_general [where rm = rm and ws = ws and k = k]
    rrf_single_source [where w = w and x = x and k = k and s = s and xs = xs] by blast

theorem reciprocal_rank_fusion_scores_witness:
  "reciprocal_rank_fusion
     [(''exact'', [\<lparr>path = ''A'', score = 10, excerpt = [], content = None\<rparr>,
                   \<lparr>path = ''B'', score = 8, excerpt = [], content = None\<rparr>,
                   \<lparr>path = ''A'', score = 7, excerpt = [], content = None\<rparr>,
                   \<lparr>path = ''C'', score = 6, excerpt = [], content = None\<rparr>]),
      (''fuzzy'', [\<lparr>path = ''B'', score = 9, excerpt = [], content = None\<rparr>,
                   \<lparr>path = ''C'', score = 7, excerpt = [], content = None\<rparr>,
                   \<lparr>path = ''D'', score = 5, excerpt = [], content = None\<rparr>])]
     [(''exact'', Fin (7/10)), (''fuzzy'', Fin (3/10))] 60
     = [(''B'', Fin (7/10 / 62 + 3/10 / 61)), (''C'', Fin (7/10 / 63 + 3/10 / 62)),
        (''A'', Fin (7/10 / 61)), (''D'', Fin (3/10 / 63))]
   \<and> hd (reciprocal_rank_fusion
         [(''exact'', [\<lparr>path = ''a.py'', score = 10, excerpt = [], content = None\<rparr>,
                       \<lparr>path = ''b.py'', score = 8, excerpt = [], content = None\<rparr>])]
         [(''exact'', Fin 1)] 60)
     = (''a.py'', Fin (1 / 61))"
proof -
  let ?rm = "[(''exact'', [\<lparr>path = ''A'', score = 10, excerpt = [], content = None\<rparr>,
                   \<lparr>path = ''B'', score = 8, excerpt = [], content = None\<rparr>,
                   \<lparr>path = ''A'', score = 7, excerpt = [], content = None\<rparr>,
                   \<lparr>path = ''C'', score = 6, excerpt = [], content = None\<rparr>]),
      (''fuzzy'', [\<lparr>path = ''B'', score = 9, excerpt = [], content = None\<rparr>,
                   \<lparr>path = ''C'', score = 7, excerpt = [], content = None\<rparr>,
                   \<lparr>path = ''D'', score = 5, excerpt = [], content = None\<rparr>])]"
  let ?ws = "[(''exact'', Fin (7/10)), (''fuzzy'', Fin (3/10))]"
  have a: "reciprocal_rank_fusion ?rm ?ws 60
     = [(''B'', Fin (7/10 / 62 + 3/10 / 61)), (''C'', Fin (7/10 / 63 + 3/10 / 62)),
        (''A'', Fin (7/10 / 61)), (''D'', Fin (3/10 / 63))]"
    by (simp add: reciprocal_rank_fusion_def rrf_scores_def add_source_def sort_desc_def)
  have b: "hd (reciprocal_rank_fusion
         [(''exact'', [\<lparr>path = ''a.py'', score = 10, excerpt = [], content = None\<rparr>,
                       \<lparr>path = ''b.py'', score = 8, excerpt = [], content = None\<rparr>])]
         [(''exact'', Fin 1)] 60)
     = (''a.py'', Fin (1 / 61))"
    using reciprocal_rank_fusion_scores [where rm = ?rm and ws = ?ws and k = 60 and w = 1
        and x = "\<lparr>path = ''a.py'', score = 10, excerpt = [], content = None\<rparr>"
        and s = "''exact''"
        and xs = "[\<lparr>path = ''b.py'', score = 8, excerpt = [], content = None\<rparr>]"]
    by simp
  from a b show ?thesis by simp
qed

theorem normalize_weights_total_cases_witness:
  "normalize_weights [(''exact'', NaN), (''fuzzy'', Fin 1)]
     = [(''exact'', NaN), (''fuzzy'', Fin 1)]
   \<and> normalize_weights [(''exact'', Fin (- 1)), (''fuzzy'', Fin (- 1/2))]
     = [(''exact'', Fin (- 1)), (''fuzzy'', Fin (- 1/2))]
   \<and> normalize_weights [(''exact'', Fin 2), (''fuzzy'', Fin 1)]
     = [(''exact'', Fin (2/3)), (''fuzzy'', Fin (1/3))]
   \<and> weights_total (normalize_weights [(''exact'', Fin 2), (''fuzzy'', Fin 1)]) = Fin 1"
  using
    normalize_weights_total_cases [where ws = "[(''exact'', NaN), (''fuzzy'', Fin 1)]" and t = 0]
    normalize_weights_total_cases [where ws = "[(''exact'', Fin (- 1)), (''fuzzy'', Fin (- 1/2))]"
      and t = "- 3/2"]
    normalize_weights_total_cases [where ws = "[(''exact'', Fin 2), (''fuzzy'', Fin 1)]" and t = 3]
  by (simp add: weights_total_def)

end
